theory Spec2Isabelle
  imports Main "HOL-Library.Word"
begin

unbundle bit_operations_syntax

section \<open>Data model\<close>

text \<open>
  A \<open>Uint8Array\<close> is a list of bytes. A script is an array whose items are either a
  \<open>Uint8Array\<close> (a data push) or a number (an opcode).
\<close>

type_synonym bytes = "8 word list"

datatype item = Push bytes | Op int

text \<open>
  The enum \<open>ScriptError\<close>, in the order of the source (\<open>SCRIPT_ERR_LAST\<close> is another
  name of \<open>SCRIPT_ERR_ERROR_COUNT\<close>).
\<close>

datatype ScriptError =
    SCRIPT_ERR_OK
  | SCRIPT_ERR_UNKNOWN_ERROR
  | SCRIPT_ERR_EVAL_FALSE
  | SCRIPT_ERR_OP_RETURN
  | SCRIPT_ERR_SCRIPT_SIZE
  | SCRIPT_ERR_PUSH_SIZE
  | SCRIPT_ERR_OP_COUNT
  | SCRIPT_ERR_STACK_SIZE
  | SCRIPT_ERR_SIG_COUNT
  | SCRIPT_ERR_PUBKEY_COUNT
  | SCRIPT_ERR_VERIFY
  | SCRIPT_ERR_EQUALVERIFY
  | SCRIPT_ERR_CHECKMULTISIGVERIFY
  | SCRIPT_ERR_CHECKSIGVERIFY
  | SCRIPT_ERR_NUMEQUALVERIFY
  | SCRIPT_ERR_BAD_OPCODE
  | SCRIPT_ERR_DISABLED_OPCODE
  | SCRIPT_ERR_INVALID_STACK_OPERATION
  | SCRIPT_ERR_INVALID_ALTSTACK_OPERATION
  | SCRIPT_ERR_UNBALANCED_CONDITIONAL
  | SCRIPT_ERR_NEGATIVE_LOCKTIME
  | SCRIPT_ERR_UNSATISFIED_LOCKTIME
  | SCRIPT_ERR_SIG_HASHTYPE
  | SCRIPT_ERR_SIG_DER
  | SCRIPT_ERR_MINIMALDATA
  | SCRIPT_ERR_SIG_PUSHONLY
  | SCRIPT_ERR_SIG_HIGH_S
  | SCRIPT_ERR_SIG_NULLDUMMY
  | SCRIPT_ERR_PUBKEYTYPE
  | SCRIPT_ERR_CLEANSTACK
  | SCRIPT_ERR_MINIMALIF
  | SCRIPT_ERR_SIG_NULLFAIL
  | SCRIPT_ERR_DISCOURAGE_UPGRADABLE_NOPS
  | SCRIPT_ERR_DISCOURAGE_UPGRADABLE_WITNESS_PROGRAM
  | SCRIPT_ERR_DISCOURAGE_UPGRADABLE_TAPROOT_VERSION
  | SCRIPT_ERR_DISCOURAGE_OP_SUCCESS
  | SCRIPT_ERR_DISCOURAGE_UPGRADABLE_PUBKEYTYPE
  | SCRIPT_ERR_WITNESS_PROGRAM_WRONG_LENGTH
  | SCRIPT_ERR_WITNESS_PROGRAM_WITNESS_EMPTY
  | SCRIPT_ERR_WITNESS_PROGRAM_MISMATCH
  | SCRIPT_ERR_WITNESS_MALLEATED
  | SCRIPT_ERR_WITNESS_MALLEATED_P2SH
  | SCRIPT_ERR_WITNESS_UNEXPECTED
  | SCRIPT_ERR_WITNESS_PUBKEYTYPE
  | SCRIPT_ERR_SCHNORR_SIG_SIZE
  | SCRIPT_ERR_SCHNORR_SIG_HASHTYPE
  | SCRIPT_ERR_SCHNORR_SIG
  | SCRIPT_ERR_TAPROOT_WRONG_CONTROL_SIZE
  | SCRIPT_ERR_TAPSCRIPT_VALIDATION_WEIGHT
  | SCRIPT_ERR_TAPSCRIPT_CHECKMULTISIG
  | SCRIPT_ERR_TAPSCRIPT_MINIMALIF
  | SCRIPT_ERR_OP_CODESEPARATOR
  | SCRIPT_ERR_SIG_FINDANDDELETE
  | SCRIPT_ERR_ERROR_COUNT
  | SCRIPT_ERR_NUM_OVERFLOW

datatype ScriptVersion = LEGACY | SEGWITV0 | SEGWITV1

text \<open>The enum \<open>ScriptRules\<close>; its member \<open>ALL\<close> is written \<open>ALL_RULES\<close>.\<close>

datatype ScriptRules = ALL_RULES | CONSENSUS_ONLY

text \<open>The numeric value of a \<open>ScriptVersion\<close>, for the comparison \<open>version < SEGWITV1\<close>.\<close>

fun version_index :: "ScriptVersion \<Rightarrow> int" where
  "version_index LEGACY = 0"
| "version_index SEGWITV0 = 1"
| "version_index SEGWITV1 = 2"

text \<open>
  An expression is a \<open>Uint8Array\<close>, an object \<open>{ var }\<close> or an object
  \<open>{ opcode, args, error? }\<close>.
\<close>

datatype expr =
    Bytes bytes
  | Var nat
  | App (opcode: int) (args: "expr list") (error: "ScriptError option")

subsection \<open>Opcodes\<close>

abbreviation (input) OP_0 :: int where "OP_0 \<equiv> 0x00"
abbreviation (input) OP_1 :: int where "OP_1 \<equiv> 0x51"
abbreviation (input) OP_16 :: int where "OP_16 \<equiv> 0x60"
abbreviation (input) OP_NOP :: int where "OP_NOP \<equiv> 0x61"
abbreviation (input) OP_VER :: int where "OP_VER \<equiv> 0x62"
abbreviation (input) OP_IF :: int where "OP_IF \<equiv> 0x63"
abbreviation (input) OP_NOTIF :: int where "OP_NOTIF \<equiv> 0x64"
abbreviation (input) OP_VERIF :: int where "OP_VERIF \<equiv> 0x65"
abbreviation (input) OP_VERNOTIF :: int where "OP_VERNOTIF \<equiv> 0x66"
abbreviation (input) OP_ELSE :: int where "OP_ELSE \<equiv> 0x67"
abbreviation (input) OP_ENDIF :: int where "OP_ENDIF \<equiv> 0x68"
abbreviation (input) OP_VERIFY :: int where "OP_VERIFY \<equiv> 0x69"
abbreviation (input) OP_RETURN :: int where "OP_RETURN \<equiv> 0x6a"
abbreviation (input) OP_TOALTSTACK :: int where "OP_TOALTSTACK \<equiv> 0x6b"
abbreviation (input) OP_FROMALTSTACK :: int where "OP_FROMALTSTACK \<equiv> 0x6c"
abbreviation (input) OP_2DROP :: int where "OP_2DROP \<equiv> 0x6d"
abbreviation (input) OP_2DUP :: int where "OP_2DUP \<equiv> 0x6e"
abbreviation (input) OP_3DUP :: int where "OP_3DUP \<equiv> 0x6f"
abbreviation (input) OP_2OVER :: int where "OP_2OVER \<equiv> 0x70"
abbreviation (input) OP_2ROT :: int where "OP_2ROT \<equiv> 0x71"
abbreviation (input) OP_2SWAP :: int where "OP_2SWAP \<equiv> 0x72"
abbreviation (input) OP_IFDUP :: int where "OP_IFDUP \<equiv> 0x73"
abbreviation (input) OP_DEPTH :: int where "OP_DEPTH \<equiv> 0x74"
abbreviation (input) OP_DROP :: int where "OP_DROP \<equiv> 0x75"
abbreviation (input) OP_DUP :: int where "OP_DUP \<equiv> 0x76"
abbreviation (input) OP_NIP :: int where "OP_NIP \<equiv> 0x77"
abbreviation (input) OP_OVER :: int where "OP_OVER \<equiv> 0x78"
abbreviation (input) OP_PICK :: int where "OP_PICK \<equiv> 0x79"
abbreviation (input) OP_ROLL :: int where "OP_ROLL \<equiv> 0x7a"
abbreviation (input) OP_ROT :: int where "OP_ROT \<equiv> 0x7b"
abbreviation (input) OP_SWAP :: int where "OP_SWAP \<equiv> 0x7c"
abbreviation (input) OP_TUCK :: int where "OP_TUCK \<equiv> 0x7d"
abbreviation (input) OP_SIZE :: int where "OP_SIZE \<equiv> 0x82"
abbreviation (input) OP_EQUAL :: int where "OP_EQUAL \<equiv> 0x87"
abbreviation (input) OP_EQUALVERIFY :: int where "OP_EQUALVERIFY \<equiv> 0x88"
abbreviation (input) OP_1ADD :: int where "OP_1ADD \<equiv> 0x8b"
abbreviation (input) OP_1SUB :: int where "OP_1SUB \<equiv> 0x8c"
abbreviation (input) OP_NEGATE :: int where "OP_NEGATE \<equiv> 0x8f"
abbreviation (input) OP_ABS :: int where "OP_ABS \<equiv> 0x90"
abbreviation (input) OP_NOT :: int where "OP_NOT \<equiv> 0x91"
abbreviation (input) OP_0NOTEQUAL :: int where "OP_0NOTEQUAL \<equiv> 0x92"
abbreviation (input) OP_ADD :: int where "OP_ADD \<equiv> 0x93"
abbreviation (input) OP_SUB :: int where "OP_SUB \<equiv> 0x94"
abbreviation (input) OP_BOOLAND :: int where "OP_BOOLAND \<equiv> 0x9a"
abbreviation (input) OP_BOOLOR :: int where "OP_BOOLOR \<equiv> 0x9b"
abbreviation (input) OP_NUMEQUAL :: int where "OP_NUMEQUAL \<equiv> 0x9c"
abbreviation (input) OP_NUMEQUALVERIFY :: int where "OP_NUMEQUALVERIFY \<equiv> 0x9d"
abbreviation (input) OP_NUMNOTEQUAL :: int where "OP_NUMNOTEQUAL \<equiv> 0x9e"
abbreviation (input) OP_LESSTHAN :: int where "OP_LESSTHAN \<equiv> 0x9f"
abbreviation (input) OP_GREATERTHAN :: int where "OP_GREATERTHAN \<equiv> 0xa0"
abbreviation (input) OP_LESSTHANOREQUAL :: int where "OP_LESSTHANOREQUAL \<equiv> 0xa1"
abbreviation (input) OP_GREATERTHANOREQUAL :: int where "OP_GREATERTHANOREQUAL \<equiv> 0xa2"
abbreviation (input) OP_MIN :: int where "OP_MIN \<equiv> 0xa3"
abbreviation (input) OP_MAX :: int where "OP_MAX \<equiv> 0xa4"
abbreviation (input) OP_WITHIN :: int where "OP_WITHIN \<equiv> 0xa5"
abbreviation (input) OP_RIPEMD160 :: int where "OP_RIPEMD160 \<equiv> 0xa6"
abbreviation (input) OP_SHA1 :: int where "OP_SHA1 \<equiv> 0xa7"
abbreviation (input) OP_SHA256 :: int where "OP_SHA256 \<equiv> 0xa8"
abbreviation (input) OP_HASH160 :: int where "OP_HASH160 \<equiv> 0xa9"
abbreviation (input) OP_HASH256 :: int where "OP_HASH256 \<equiv> 0xaa"
abbreviation (input) OP_CODESEPARATOR :: int where "OP_CODESEPARATOR \<equiv> 0xab"
abbreviation (input) OP_CHECKSIG :: int where "OP_CHECKSIG \<equiv> 0xac"
abbreviation (input) OP_CHECKSIGVERIFY :: int where "OP_CHECKSIGVERIFY \<equiv> 0xad"
abbreviation (input) OP_CHECKMULTISIG :: int where "OP_CHECKMULTISIG \<equiv> 0xae"
abbreviation (input) OP_CHECKMULTISIGVERIFY :: int where "OP_CHECKMULTISIGVERIFY \<equiv> 0xaf"
abbreviation (input) OP_NOP1 :: int where "OP_NOP1 \<equiv> 0xb0"
abbreviation (input) OP_CHECKLOCKTIMEVERIFY :: int where "OP_CHECKLOCKTIMEVERIFY \<equiv> 0xb1"
abbreviation (input) OP_CHECKSEQUENCEVERIFY :: int where "OP_CHECKSEQUENCEVERIFY \<equiv> 0xb2"
abbreviation (input) OP_NOP4 :: int where "OP_NOP4 \<equiv> 0xb3"
abbreviation (input) OP_NOP10 :: int where "OP_NOP10 \<equiv> 0xb9"
abbreviation (input) OP_CHECKSIGADD :: int where "OP_CHECKSIGADD \<equiv> 0xba"
abbreviation (input) INTERNAL_NOT :: int where "INTERNAL_NOT \<equiv> - 1"

section \<open>ScriptConv: the byte-string codec\<close>

subsection \<open>The 32-bit operators of the source language\<close>

text \<open>
  The bitwise operators convert their operands to 32-bit two's complement integers and
  give a signed 32-bit result; a shift count is taken modulo 32.
\<close>

definition js_and :: "int \<Rightarrow> int \<Rightarrow> int" where
  "js_and a b = sint ((word_of_int a :: 32 word) AND word_of_int b)"

definition js_or :: "int \<Rightarrow> int \<Rightarrow> int" where
  "js_or a b = sint ((word_of_int a :: 32 word) OR word_of_int b)"

definition js_shl :: "int \<Rightarrow> int \<Rightarrow> int" where
  "js_shl a k = sint (push_bit (nat (k mod 32)) (word_of_int a :: 32 word))"

definition js_sar :: "int \<Rightarrow> int \<Rightarrow> int" where
  "js_sar a k = sint (signed_drop_bit (nat (k mod 32)) (word_of_int a :: 32 word))"

subsection \<open>ScriptConv.Int\<close>

text \<open>
  The loop \<open>while (abs) { buf.push(abs & 0xff); abs >>= 8; }\<close>. It does not end when
  bit 31 of \<open>abs\<close> is set (the arithmetic shift then stays at \<open>-1\<close>), so the loop is a
  partial function and \<open>None\<close> stands for not returning.
\<close>

partial_function (option) encode_loop :: "int \<Rightarrow> int list \<Rightarrow> int list option" where
  "encode_loop a buf =
     (if a = 0 then Some buf
      else encode_loop (js_sar a 8) (buf @ [js_and a 0xff]))"

declare encode_loop.simps [code]

text \<open>
  Reading \<open>buf[buf.length - 1]\<close> of an empty array gives \<open>undefined\<close>, which the
  operator \<open>&\<close> takes as 0; assigning to it leaves the array empty.
\<close>

definition Int_encode :: "int \<Rightarrow> bytes option" where
  "Int_encode n =
     (let neg = n < 0 in
      case encode_loop \<bar>n\<bar> [] of
        None \<Rightarrow> None
      | Some buf \<Rightarrow>
          Some (map word_of_int
            (if js_and (if buf = [] then 0 else last buf) 0x80 \<noteq> 0
             then buf @ [if neg then 0x80 else 0x00]
             else if neg
               then (if buf = [] then buf else butlast buf @ [js_or (last buf) 0x80])
               else buf)))"

text \<open>The loop \<open>for (i = 0; i != buf.length; ++i) n |= buf[i] << (i * 8)\<close>.\<close>

fun decode_loop :: "nat \<Rightarrow> int list \<Rightarrow> int \<Rightarrow> int" where
  "decode_loop i [] n = n"
| "decode_loop i (b # bs) n = decode_loop (i + 1) bs (js_or n (js_shl b (int i * 8)))"

definition Int_decode :: "bytes \<Rightarrow> int" where
  "Int_decode buf =
     (if buf = [] then 0
      else
        let neg = js_and (uint (last buf)) 0x80;
            buf' = (if neg \<noteq> 0
                    then butlast buf @ [word_of_int (js_and (uint (last buf)) 0x7f)]
                    else buf);
            n = decode_loop 0 (map uint buf') 0
        in if neg \<noteq> 0 then - n else n)"

subsection \<open>ScriptConv.Bool\<close>

definition Bool_FALSE :: bytes where
  "Bool_FALSE = []"

definition Bool_TRUE :: bytes where
  "Bool_TRUE = [1]"

definition Bool_encode :: "bool \<Rightarrow> bytes" where
  "Bool_encode b = (if b then Bool_TRUE else Bool_FALSE)"

text \<open>
  The first non-zero byte decides: the result is false only when that byte is the last
  one and equals \<open>0x80\<close>.
\<close>

fun Bool_decode :: "bytes \<Rightarrow> bool" where
  "Bool_decode [] = False"
| "Bool_decode (b # bs) = (if b \<noteq> 0 then bs \<noteq> [] \<or> b \<noteq> 0x80 else Bool_decode bs)"

section \<open>ConditionStack\<close>

text \<open>The values a \<open>throw\<close> statement of the analyzer can raise.\<close>

datatype thrown =
    Throw_pop_back        \<comment> \<open>\<open>'pop_back: stack size <= 0'\<close>\<close>
  | Throw_toggle_top      \<comment> \<open>\<open>'toggle_top: stack size <= 0'\<close>\<close>
  | Throw_numFromStack int  \<comment> \<open>\<open>"<name of op> can't use stack/output values as depth (yet)"\<close>\<close>

definition NO_FALSE :: int where
  "NO_FALSE = - 1"

record ConditionStack =
  m_stack_size :: int
  m_first_false_pos :: int

definition new_ConditionStack :: ConditionStack where
  "new_ConditionStack = \<lparr>m_stack_size = 0, m_first_false_pos = NO_FALSE\<rparr>"

definition empty_cs :: "ConditionStack \<Rightarrow> bool" where
  "empty_cs c \<longleftrightarrow> m_stack_size c = 0"

definition all_true :: "ConditionStack \<Rightarrow> bool" where
  "all_true c \<longleftrightarrow> m_first_false_pos c = NO_FALSE"

definition push_back :: "bool \<Rightarrow> ConditionStack \<Rightarrow> ConditionStack" where
  "push_back f c =
     (let c1 = (if m_first_false_pos c = NO_FALSE \<and> \<not> f
                then c\<lparr>m_first_false_pos := m_stack_size c\<rparr> else c)
      in c1\<lparr>m_stack_size := m_stack_size c1 + 1\<rparr>)"

definition pop_back :: "ConditionStack \<Rightarrow> thrown + ConditionStack" where
  "pop_back c =
     (if m_stack_size c \<le> 0 then Inl Throw_pop_back
      else
        let c1 = c\<lparr>m_stack_size := m_stack_size c - 1\<rparr>
        in Inr (if m_first_false_pos c1 = m_stack_size c1
                then c1\<lparr>m_first_false_pos := NO_FALSE\<rparr> else c1))"

definition toggle_top :: "ConditionStack \<Rightarrow> thrown + ConditionStack" where
  "toggle_top c =
     (if m_stack_size c \<le> 0 then Inl Throw_toggle_top
      else if m_first_false_pos c = NO_FALSE
        then Inr (c\<lparr>m_first_false_pos := m_stack_size c - 1\<rparr>)
      else if m_first_false_pos c = m_stack_size c - 1
        then Inr (c\<lparr>m_first_false_pos := NO_FALSE\<rparr>)
      else Inr c)"

definition clone :: "ConditionStack \<Rightarrow> ConditionStack" where
  "clone c = \<lparr>m_stack_size = m_stack_size c, m_first_false_pos = m_first_false_pos c\<rparr>"

subsection \<open>Sequences of operations, and the materialized vector\<close>

text \<open>
  A sequence of calls on one \<open>ConditionStack\<close>; a \<open>throw\<close> ends the run.
\<close>


datatype cs_op = Push_back bool | Pop_back | Toggle_top

fun apply_cs_op :: "cs_op \<Rightarrow> ConditionStack \<Rightarrow> thrown + ConditionStack" where
  "apply_cs_op (Push_back f) c = Inr (push_back f c)"
| "apply_cs_op Pop_back c = pop_back c"
| "apply_cs_op Toggle_top c = toggle_top c"

fun run_cs :: "cs_op list \<Rightarrow> ConditionStack \<Rightarrow> thrown + ConditionStack" where
  "run_cs [] c = Inr c"
| "run_cs (p # ps) c = (case apply_cs_op p c of Inl e \<Rightarrow> Inl e | Inr c' \<Rightarrow> run_cs ps c')"

text \<open>
  The reference the source's comment describes: a vector of booleans, one for each level
  of nesting. \<open>push_back\<close> appends, \<open>pop_back\<close> removes the last value and
  \<open>toggle_top\<close> flips it; the last two are not defined on the empty vector.
\<close>

fun vector_op :: "cs_op \<Rightarrow> bool list \<Rightarrow> bool list option" where
  "vector_op (Push_back f) v = Some (v @ [f])"
| "vector_op Pop_back v = (if v = [] then None else Some (butlast v))"
| "vector_op Toggle_top v = (if v = [] then None else Some (butlast v @ [\<not> last v]))"

fun run_vector :: "cs_op list \<Rightarrow> bool list \<Rightarrow> bool list option" where
  "run_vector [] v = Some v"
| "run_vector (p # ps) v = (case vector_op p v of None \<Rightarrow> None | Some v' \<Rightarrow> run_vector ps v')"

text \<open>
  The position of the first false value of a vector (\<open>NO_FALSE\<close> when there is
  none), and the simulation relation between the two representations.
\<close>

definition first_false :: "bool list \<Rightarrow> int" where
  "first_false v = (if list_all (\<lambda>b. b) v then NO_FALSE else int (length (takeWhile (\<lambda>b. b) v)))"

definition cs_rel :: "ConditionStack \<Rightarrow> bool list \<Rightarrow> bool" where
  "cs_rel c v \<longleftrightarrow> m_stack_size c = int (length v) \<and> m_first_false_pos c = first_false v"

section \<open>ScriptAnalyzer\<close>

text \<open>
  The fields of a \<open>ScriptAnalyzer\<close>. The registry \<open>branches\<close>, which all forks of one
  analysis share, is not a field here: \<open>analyze\<close> returns the forks it has registered.
\<close>

record ScriptAnalyzer =
  version :: ScriptVersion
  rules :: ScriptRules
  stack :: "expr list"
  altstack :: "expr list"
  spendingConditions :: "expr list"
  varCounter :: nat
  script :: "item list"
  scriptOffset :: nat
  path :: nat
  cs :: ConditionStack

text \<open>
  The two branches of the constructor. The version and the rules are read from the page
  (\<open>getScriptVersion\<close>, \<open>getScriptRules\<close>) and are parameters here.
\<close>

definition new_ScriptAnalyzer :: "ScriptVersion \<Rightarrow> ScriptRules \<Rightarrow> item list \<Rightarrow> ScriptAnalyzer" where
  "new_ScriptAnalyzer v r arg =
     \<lparr>version = v, rules = r, stack = [], altstack = [], spendingConditions = [],
      varCounter = 0, script = arg, scriptOffset = 0, path = 0, cs = new_ConditionStack\<rparr>"

definition fork_ScriptAnalyzer :: "ScriptAnalyzer \<Rightarrow> ScriptAnalyzer" where
  "fork_ScriptAnalyzer arg = arg\<lparr>path := path arg + 1, cs := clone (cs arg)\<rparr>"

subsection \<open>takeElements and readElements\<close>

text \<open>
  The loop of \<open>takeElements\<close>, with the number of iterations left and the list \<open>res\<close>;
  \<open>unshift\<close> puts an element in front of \<open>res\<close>. The top of the stack is the end of the
  list.
\<close>

fun take_loop :: "nat \<Rightarrow> expr list \<Rightarrow> ScriptAnalyzer \<Rightarrow> expr list \<times> ScriptAnalyzer" where
  "take_loop 0 res st = (res, st)"
| "take_loop (Suc n) res st =
     (if stack st \<noteq> []
      then take_loop n (last (stack st) # res) (st\<lparr>stack := butlast (stack st)\<rparr>)
      else take_loop n (Var (varCounter st) # res) (st\<lparr>varCounter := varCounter st + 1\<rparr>))"

definition takeElements :: "nat \<Rightarrow> ScriptAnalyzer \<Rightarrow> expr list \<times> ScriptAnalyzer" where
  "takeElements amount st = take_loop amount [] st"

text \<open>The loop of \<open>readElements\<close>, which puts fresh variables under the stack.\<close>

function read_loop :: "nat \<Rightarrow> ScriptAnalyzer \<Rightarrow> ScriptAnalyzer" where
  "read_loop amount st =
     (if length (stack st) < amount
      then read_loop amount
             (st\<lparr>stack := Var (varCounter st) # stack st, varCounter := varCounter st + 1\<rparr>)
      else st)"
  by pat_completeness auto
termination
  by (relation "measure (\<lambda>(amount, st). amount - length (stack st))") auto

definition readElements :: "nat \<Rightarrow> ScriptAnalyzer \<Rightarrow> expr list \<times> ScriptAnalyzer" where
  "readElements amount st =
     (let st1 = read_loop amount st
      in (drop (length (stack st1) - amount) (stack st1), st1))"

subsection \<open>verify and numFromStack\<close>

definition push_stack :: "expr list \<Rightarrow> ScriptAnalyzer \<Rightarrow> ScriptAnalyzer" where
  "push_stack es st = st\<lparr>stack := stack st @ es\<rparr>"

definition push_condition :: "expr \<Rightarrow> ScriptAnalyzer \<Rightarrow> ScriptAnalyzer" where
  "push_condition e st = st\<lparr>spendingConditions := spendingConditions st @ [e]\<rparr>"

definition verify :: "ScriptAnalyzer \<Rightarrow> bool \<times> ScriptAnalyzer" where
  "verify st =
     (case takeElements 1 st of (elems, st1) \<Rightarrow>
        (case elems ! 0 of
           Bytes b \<Rightarrow> if \<not> Bool_decode b then (False, st1) else (True, st1)
         | Var v \<Rightarrow> (True, push_condition (Var v) st1)
         | App f as e \<Rightarrow> (True, push_condition (App f as e) st1)))"

text \<open>
  The result \<open>None\<close> is the \<open>undefined\<close> that the function returns for a buffer of more
  than four bytes.
\<close>

definition numFromStack :: "int \<Rightarrow> ScriptAnalyzer \<Rightarrow> thrown + (int option \<times> ScriptAnalyzer)" where
  "numFromStack op st =
     (case takeElements 1 st of (elems, st1) \<Rightarrow>
        (case elems ! 0 of
           Bytes buf \<Rightarrow> Inr (if length buf \<le> 4 then Some (Int_decode buf) else None, st1)
         | Var v \<Rightarrow> Inl (Throw_numFromStack op)
         | App f as e \<Rightarrow> Inl (Throw_numFromStack op)))"

subsection \<open>One iteration of the loop of analyze\<close>

text \<open>
  How the body of the loop ends: with \<open>continue\<close> (\<open>Skipped\<close>), at the end of the
  \<open>switch\<close> (\<open>Executed\<close>, with the fork on which the case has called \<open>analyze\<close> as its
  last statement, if it made one), with \<open>return\<close> of an error, with a \<open>throw\<close>, or not
  at all (\<open>Hung\<close>, when \<open>ScriptConv.Int.encode\<close> does not return).
\<close>

datatype step_result =
    Skipped ScriptAnalyzer
  | Executed ScriptAnalyzer "ScriptAnalyzer option"
  | Returned ScriptError ScriptAnalyzer
  | Threw thrown
  | Hung

definition verify_or :: "ScriptError \<Rightarrow> ScriptAnalyzer \<Rightarrow> step_result" where
  "verify_or e st =
     (case verify st of (ok, st1) \<Rightarrow> if \<not> ok then Returned e st1 else Executed st1 None)"

definition op_if_notif :: "int \<Rightarrow> bool \<Rightarrow> ScriptAnalyzer \<Rightarrow> step_result" where
  "op_if_notif op fExec st =
     (if fExec then
        let minimalIf = (version st = SEGWITV1 \<or> (version st = SEGWITV0 \<and> rules st = ALL_RULES))
        in case takeElements 1 st of (elems, st1) \<Rightarrow>
          let elem = elems ! 0;
              fork = fork_ScriptAnalyzer st1;
              this1 = st1\<lparr>cs := push_back (op = OP_IF) (cs st1)\<rparr>;
              fork1 = fork\<lparr>cs := push_back (op \<noteq> OP_IF) (cs fork)\<rparr>
          in if minimalIf then
               let err = (if version st = SEGWITV1 then SCRIPT_ERR_TAPSCRIPT_MINIMALIF
                          else SCRIPT_ERR_MINIMALIF)
               in Executed
                    (push_condition (App OP_EQUAL [elem, Bytes Bool_TRUE] (Some err)) this1)
                    (Some (push_condition (App OP_EQUAL [elem, Bytes Bool_FALSE] (Some err)) fork1))
             else
               Executed
                 (push_condition elem this1)
                 (Some (push_condition (App INTERNAL_NOT [elem] None) fork1))
      else Executed (st\<lparr>cs := push_back False (cs st)\<rparr>) None)"

definition op_pick_roll :: "int \<Rightarrow> ScriptAnalyzer \<Rightarrow> step_result" where
  "op_pick_roll op st =
     (case numFromStack op st of
        Inl t \<Rightarrow> Threw t
      | Inr (index, st1) \<Rightarrow>
          (case index of
             None \<Rightarrow> Returned SCRIPT_ERR_NUM_OVERFLOW st1
           | Some n \<Rightarrow>
               if n < 0 then Returned SCRIPT_ERR_INVALID_STACK_OPERATION st1
               else case readElements (nat (n + 1)) st1 of (elems, st2) \<Rightarrow>
                 let elem = elems ! 0;
                     start = length (stack st2) - nat n - 1;
                     st3 = (if op = OP_ROLL
                            then st2\<lparr>stack := take start (stack st2) @ drop (start + 1) (stack st2)\<rparr>
                            else st2)
                 in Executed (push_stack [elem] st3) None))"

definition op_checkmultisig :: "int \<Rightarrow> ScriptAnalyzer \<Rightarrow> step_result" where
  "op_checkmultisig op st =
     (if version st = SEGWITV1 then Returned SCRIPT_ERR_TAPSCRIPT_CHECKMULTISIG st
      else case numFromStack op st of
        Inl t \<Rightarrow> Threw t
      | Inr (kcount, st1) \<Rightarrow>
          (case kcount of
             None \<Rightarrow> Returned SCRIPT_ERR_NUM_OVERFLOW st1
           | Some k \<Rightarrow>
               if k < 0 \<or> k > 20 then Returned SCRIPT_ERR_PUBKEY_COUNT st1
               else case takeElements (nat k) st1 of (pks, st2) \<Rightarrow>
                 (case numFromStack op st2 of
                    Inl t \<Rightarrow> Threw t
                  | Inr (scount, st3) \<Rightarrow>
                      (case scount of
                         None \<Rightarrow> Returned SCRIPT_ERR_NUM_OVERFLOW st3
                       | Some s \<Rightarrow>
                           if s < 0 \<or> s > k then Returned SCRIPT_ERR_SIG_COUNT st3
                           else case takeElements (nat s) st3 of (sigs, st4) \<Rightarrow>
                             (case takeElements 1 st4 of (d, st5) \<Rightarrow>
                                let dummy = d ! 0;
                                    st6 = push_condition
                                            (App OP_EQUAL [dummy, Bytes Bool_FALSE]
                                               (Some SCRIPT_ERR_SIG_NULLDUMMY)) st5
                                in case Int_encode s of
                                  None \<Rightarrow> Hung
                                | Some es \<Rightarrow>
                                    (case Int_encode k of
                                       None \<Rightarrow> Hung
                                     | Some ek \<Rightarrow>
                                         let st7 = push_stack
                                               [App OP_CHECKMULTISIG
                                                  (sigs @ [Bytes es] @ pks @ [Bytes ek]) None] st6
                                         in if op = OP_CHECKMULTISIGVERIFY
                                            then verify_or SCRIPT_ERR_CHECKMULTISIGVERIFY st7
                                            else Executed st7 None))))))"

text \<open>
  The \<open>switch\<close> on the opcode, case by case in the order of the source. \<open>fExec\<close> is
  false only for the four opcodes that are dispatched in a branch that is not executed.
\<close>

definition exec_opcode :: "int \<Rightarrow> bool \<Rightarrow> ScriptAnalyzer \<Rightarrow> step_result" where
  "exec_opcode op fExec st =
     (if op = OP_0 then Executed (push_stack [Bytes []] st) None
      else if OP_1 \<le> op \<and> op \<le> OP_16
        then Executed (push_stack [Bytes [word_of_int (op - 0x50)]] st) None
      else if op = OP_NOP then Executed st None
      else if op = OP_IF \<or> op = OP_NOTIF then op_if_notif op fExec st
      else if op = OP_ELSE then
        (if empty_cs (cs st) then Returned SCRIPT_ERR_UNBALANCED_CONDITIONAL st
         else case toggle_top (cs st) of
           Inl t \<Rightarrow> Threw t
         | Inr c \<Rightarrow> Executed (st\<lparr>cs := c\<rparr>) None)
      else if op = OP_ENDIF then
        (if empty_cs (cs st) then Returned SCRIPT_ERR_UNBALANCED_CONDITIONAL st
         else case pop_back (cs st) of
           Inl t \<Rightarrow> Threw t
         | Inr c \<Rightarrow> Executed (st\<lparr>cs := c\<rparr>) None)
      else if op = OP_VERIFY then verify_or SCRIPT_ERR_VERIFY st
      else if op = OP_RETURN then Returned SCRIPT_ERR_OP_RETURN st
      else if op = OP_TOALTSTACK then
        (case takeElements 1 st of (elems, st1) \<Rightarrow>
           Executed (st1\<lparr>altstack := altstack st1 @ [elems ! 0]\<rparr>) None)
      else if op = OP_FROMALTSTACK then
        (if altstack st = [] then Returned SCRIPT_ERR_INVALID_ALTSTACK_OPERATION st
         else Executed (st\<lparr>stack := stack st @ [last (altstack st)],
                           altstack := butlast (altstack st)\<rparr>) None)
      else if op = OP_2DROP then
        (case takeElements 2 st of (elems, st1) \<Rightarrow> Executed st1 None)
      else if op = OP_2DUP then
        (case readElements 2 st of (elems, st1) \<Rightarrow> Executed (push_stack elems st1) None)
      else if op = OP_3DUP then
        (case readElements 3 st of (elems, st1) \<Rightarrow> Executed (push_stack elems st1) None)
      else if op = OP_2OVER then
        (case readElements 4 st of (elems, st1) \<Rightarrow>
           Executed (push_stack (take 2 elems) st1) None)
      else if op = OP_2ROT then
        (case takeElements 6 st of (elems, st1) \<Rightarrow>
           Executed (push_stack (drop 2 elems @ take 2 elems) st1) None)
      else if op = OP_2SWAP then
        (case takeElements 4 st of (elems, st1) \<Rightarrow>
           Executed (push_stack (drop 2 elems @ take 2 elems) st1) None)
      else if op = OP_IFDUP then
        (case readElements 1 st of (elems, st1) \<Rightarrow>
           let elem = elems ! 0;
               fork = fork_ScriptAnalyzer st1
           in Executed
                (push_stack [elem] (push_condition elem st1))
                (Some (push_condition (App INTERNAL_NOT [elem] None) fork)))
      else if op = OP_DEPTH then
        (case Int_encode (int (length (stack st))) of
           None \<Rightarrow> Hung
         | Some b \<Rightarrow> Executed (push_stack [Bytes b] st) None)
      else if op = OP_DROP then
        (case takeElements 1 st of (elems, st1) \<Rightarrow> Executed st1 None)
      else if op = OP_DUP then
        (case readElements 1 st of (elems, st1) \<Rightarrow>
           Executed (push_stack [elems ! 0] st1) None)
      else if op = OP_NIP then
        (case takeElements 2 st of (elems, st1) \<Rightarrow>
           Executed (push_stack [elems ! 1] st1) None)
      else if op = OP_OVER then
        (case readElements 2 st of (elems, st1) \<Rightarrow>
           Executed (push_stack [elems ! 0] st1) None)
      else if op = OP_PICK \<or> op = OP_ROLL then op_pick_roll op st
      else if op = OP_ROT then
        (case takeElements 3 st of (elems, st1) \<Rightarrow>
           Executed (push_stack (drop 1 elems @ [elems ! 0]) st1) None)
      else if op = OP_SWAP then
        (case takeElements 2 st of (elems, st1) \<Rightarrow>
           Executed (push_stack [elems ! 1, elems ! 0] st1) None)
      else if op = OP_TUCK then
        (case takeElements 2 st of (elems, st1) \<Rightarrow>
           Executed (push_stack (elems ! 1 # elems) st1) None)
      else if op = OP_SIZE then
        (case readElements 1 st of (elems, st1) \<Rightarrow>
           Executed (push_stack [App op elems None] st1) None)
      else if op = OP_EQUAL \<or> op = OP_EQUALVERIFY then
        (case takeElements 2 st of (elems, st1) \<Rightarrow>
           let st2 = push_stack [App OP_EQUAL elems None] st1
           in if op = OP_EQUALVERIFY then verify_or SCRIPT_ERR_EQUALVERIFY st2
              else Executed st2 None)
      else if op = OP_1ADD \<or> op = OP_1SUB \<or> op = OP_NEGATE \<or> op = OP_ABS
              \<or> op = OP_NOT \<or> op = OP_0NOTEQUAL then
        (case takeElements 1 st of (elems, st1) \<Rightarrow>
           Executed (push_stack [App op elems None] st1) None)
      else if op = OP_ADD \<or> op = OP_SUB \<or> op = OP_BOOLAND \<or> op = OP_BOOLOR
              \<or> op = OP_NUMEQUAL \<or> op = OP_NUMEQUALVERIFY \<or> op = OP_NUMNOTEQUAL
              \<or> op = OP_LESSTHAN \<or> op = OP_GREATERTHAN \<or> op = OP_LESSTHANOREQUAL
              \<or> op = OP_GREATERTHANOREQUAL \<or> op = OP_MIN \<or> op = OP_MAX then
        (case takeElements 2 st of (elems, st1) \<Rightarrow>
           let st2 = push_stack
                 [App (if op = OP_NUMEQUALVERIFY then OP_NUMEQUAL else op) elems None] st1
           in if op = OP_EQUALVERIFY then verify_or SCRIPT_ERR_NUMEQUALVERIFY st2
              else Executed st2 None)
      else if op = OP_WITHIN then
        (case takeElements 3 st of (elems, st1) \<Rightarrow>
           Executed (push_stack [App op elems None] st1) None)
      else if op = OP_RIPEMD160 \<or> op = OP_SHA1 \<or> op = OP_SHA256 \<or> op = OP_HASH160
              \<or> op = OP_HASH256 then
        (case takeElements 1 st of (elems, st1) \<Rightarrow>
           Executed (push_stack [App op elems None] st1) None)
      else if op = OP_CODESEPARATOR then Executed st None
      else if op = OP_CHECKSIG \<or> op = OP_CHECKSIGVERIFY then
        (case takeElements 2 st of (elems, st1) \<Rightarrow>
           let st2 = push_stack [App OP_CHECKSIG elems None] st1
           in if op = OP_CHECKSIGVERIFY then verify_or SCRIPT_ERR_CHECKSIGVERIFY st2
              else Executed st2 None)
      else if op = OP_CHECKMULTISIG \<or> op = OP_CHECKMULTISIGVERIFY then op_checkmultisig op st
      else if op = OP_CHECKLOCKTIMEVERIFY \<or> op = OP_CHECKSEQUENCEVERIFY then
        (case readElements 1 st of (elems, st1) \<Rightarrow>
           Executed (push_condition (App op elems None) st1) None)
      else if op = OP_NOP1 \<or> (OP_NOP4 \<le> op \<and> op \<le> OP_NOP10) then Executed st None
      else if op = OP_CHECKSIGADD then
        (if version_index (version st) < version_index SEGWITV1
         then Returned SCRIPT_ERR_BAD_OPCODE st
         else case takeElements 3 st of (elems, st1) \<Rightarrow>
           let sig = elems ! 0; n = elems ! 1; pk = elems ! 2
           in Executed
                (push_stack [App OP_ADD [n, App OP_CHECKSIG [sig, pk] None] None] st1) None)
      else Returned SCRIPT_ERR_BAD_OPCODE st)"

text \<open>
  The body of the loop: read the item at \<open>scriptOffset\<close> and advance, skip the item in
  a branch that is not executed unless it is an opcode from \<open>OP_IF\<close> to \<open>OP_ENDIF\<close>,
  push a data item, dispatch an opcode. The check of the stack size, which follows the
  \<open>switch\<close> and the fork's analysis, is in \<open>analyze\<close>.
\<close>

definition step :: "ScriptAnalyzer \<Rightarrow> step_result" where
  "step st =
     (let fExec = all_true (cs st);
          op = script st ! scriptOffset st;
          st1 = st\<lparr>scriptOffset := scriptOffset st + 1\<rparr>
      in if \<not> fExec \<and> (case op of Push b \<Rightarrow> True | Op c \<Rightarrow> c < OP_IF \<or> c > OP_ENDIF)
         then Skipped st1
         else case op of
           Push b \<Rightarrow> Executed (push_stack [Bytes b] st1) None
         | Op c \<Rightarrow> exec_opcode c fExec st1)"

text \<open>The statements after the loop.\<close>

definition finish :: "ScriptAnalyzer \<Rightarrow> ScriptError option \<times> ScriptAnalyzer" where
  "finish st =
     (if \<not> empty_cs (cs st) then (Some SCRIPT_ERR_UNBALANCED_CONDITIONAL, st)
      else if length (stack st) > 1 then (Some SCRIPT_ERR_CLEANSTACK, st)
      else case verify st of (ok, st1) \<Rightarrow>
        if \<not> ok then (Some SCRIPT_ERR_EVAL_FALSE, st1) else (None, st1))"

subsection \<open>What a step leaves in place\<close>

text \<open>
  The primitives change the stack, the variable counter and the spending conditions
  only; a step moves the script offset by one. The loop of \<open>analyze\<close> ends for that
  reason.
\<close>

lemma take_loop_fields [simp]:
  "script (snd (take_loop n res st)) = script st"
  "scriptOffset (snd (take_loop n res st)) = scriptOffset st"
  "cs (snd (take_loop n res st)) = cs st"
  "version (snd (take_loop n res st)) = version st"
  "rules (snd (take_loop n res st)) = rules st"
  "path (snd (take_loop n res st)) = path st"
  "altstack (snd (take_loop n res st)) = altstack st"
  "spendingConditions (snd (take_loop n res st)) = spendingConditions st"
  by (induction n arbitrary: res st; simp)+

lemma takeElements_fields [simp]:
  "script (snd (takeElements n st)) = script st"
  "scriptOffset (snd (takeElements n st)) = scriptOffset st"
  "cs (snd (takeElements n st)) = cs st"
  "version (snd (takeElements n st)) = version st"
  "rules (snd (takeElements n st)) = rules st"
  "path (snd (takeElements n st)) = path st"
  "altstack (snd (takeElements n st)) = altstack st"
  "spendingConditions (snd (takeElements n st)) = spendingConditions st"
  by (simp_all add: takeElements_def)

declare read_loop.simps [simp del]

lemma read_loop_fields [simp]:
  "script (read_loop n st) = script st"
  "scriptOffset (read_loop n st) = scriptOffset st"
  "cs (read_loop n st) = cs st"
  "version (read_loop n st) = version st"
  "rules (read_loop n st) = rules st"
  "path (read_loop n st) = path st"
  "altstack (read_loop n st) = altstack st"
  "spendingConditions (read_loop n st) = spendingConditions st"
  by (induction n st rule: read_loop.induct, subst read_loop.simps, simp)+

lemma readElements_fields [simp]:
  "script (snd (readElements n st)) = script st"
  "scriptOffset (snd (readElements n st)) = scriptOffset st"
  "cs (snd (readElements n st)) = cs st"
  "version (snd (readElements n st)) = version st"
  "rules (snd (readElements n st)) = rules st"
  "path (snd (readElements n st)) = path st"
  "altstack (snd (readElements n st)) = altstack st"
  "spendingConditions (snd (readElements n st)) = spendingConditions st"
  by (simp_all add: readElements_def Let_def)

lemma push_fields [simp]:
  "script (push_stack es st) = script st"
  "scriptOffset (push_stack es st) = scriptOffset st"
  "cs (push_stack es st) = cs st"
  "version (push_stack es st) = version st"
  "rules (push_stack es st) = rules st"
  "script (push_condition e st) = script st"
  "scriptOffset (push_condition e st) = scriptOffset st"
  "cs (push_condition e st) = cs st"
  "version (push_condition e st) = version st"
  "rules (push_condition e st) = rules st"
  by (simp_all add: push_stack_def push_condition_def)

lemma fork_fields [simp]:
  "script (fork_ScriptAnalyzer st) = script st"
  "scriptOffset (fork_ScriptAnalyzer st) = scriptOffset st"
  "cs (fork_ScriptAnalyzer st) = cs st"
  "version (fork_ScriptAnalyzer st) = version st"
  "rules (fork_ScriptAnalyzer st) = rules st"
  by (simp_all add: fork_ScriptAnalyzer_def clone_def)

lemma verify_fields [simp]:
  "script (snd (verify st)) = script st"
  "scriptOffset (snd (verify st)) = scriptOffset st"
  "cs (snd (verify st)) = cs st"
  "version (snd (verify st)) = version st"
  "rules (snd (verify st)) = rules st"
  by (simp_all add: verify_def split_beta split: expr.splits)


lemma numFromStack_fields:
  "numFromStack op st = Inr (r, st1) \<Longrightarrow>
     script st1 = script st \<and> scriptOffset st1 = scriptOffset st \<and> cs st1 = cs st
     \<and> version st1 = version st \<and> rules st1 = rules st"
  by (auto simp: numFromStack_def split_beta split: expr.splits)

text \<open>The states a step hands on: the analyzer itself and the fork it has made.\<close>

fun next_states :: "step_result \<Rightarrow> ScriptAnalyzer list" where
  "next_states (Skipped st) = [st]"
| "next_states (Executed st None) = [st]"
| "next_states (Executed st (Some f)) = [st, f]"
| "next_states (Returned e st) = [st]"
| "next_states (Threw t) = []"
| "next_states Hung = []"

definition same_position :: "ScriptAnalyzer \<Rightarrow> ScriptAnalyzer \<Rightarrow> bool" where
  "same_position st st' \<longleftrightarrow> script st' = script st \<and> scriptOffset st' = scriptOffset st"

lemma op_if_notif_position [simp]:
  "\<forall>s \<in> set (next_states (op_if_notif op fExec st)). same_position st s"
  by (simp add: op_if_notif_def split_beta same_position_def Let_def)

lemma op_pick_roll_position [simp]:
  "\<forall>s \<in> set (next_states (op_pick_roll op st)). same_position st s"
  by (simp add: op_pick_roll_def numFromStack_def split_beta same_position_def Let_def
      split: sum.splits option.splits expr.splits)


lemma numFromStack_position:
  "numFromStack op st = Inr (r, st1) \<Longrightarrow> same_position st st1"
  by (auto simp: numFromStack_def split_beta same_position_def split: expr.splits)

lemma same_position_simps [simp]:
  "same_position st st"
  "same_position st (snd (takeElements n a)) = same_position st a"
  "same_position st (snd (readElements n a)) = same_position st a"
  "same_position st (snd (verify a)) = same_position st a"
  "same_position st (push_stack es a) = same_position st a"
  "same_position st (push_condition e a) = same_position st a"
  "same_position st (fork_ScriptAnalyzer a) = same_position st a"
  by (simp_all add: same_position_def)

lemma same_position_trans: "same_position a b \<Longrightarrow> same_position b c \<Longrightarrow> same_position a c"
  by (simp add: same_position_def)

lemma op_checkmultisig_position [simp]:
  "\<forall>s \<in> set (next_states (op_checkmultisig op st)). same_position st s"
  by (auto simp: op_checkmultisig_def verify_or_def split_beta Let_def
      split: sum.splits option.splits if_splits dest!: numFromStack_position)
     (auto simp: same_position_def)


lemma toggle_pop_next_states:
  "next_states (case r of Inl t \<Rightarrow> Threw t | Inr c \<Rightarrow> Executed (f c) None)
     = (case r of Inl t \<Rightarrow> [] | Inr c \<Rightarrow> [f c])"
  by (cases r) simp_all

lemma exec_opcode_position:
  "\<forall>s \<in> set (next_states (exec_opcode op fExec st)). same_position st s"
  unfolding exec_opcode_def
  by (simp add: verify_or_def split_beta Let_def same_position_def[of _ "_\<lparr>cs := _\<rparr>"]
      same_position_def[of _ "_\<lparr>altstack := _\<rparr>"] same_position_def[of _ "_\<lparr>stack := _, altstack := _\<rparr>"]
      split: sum.splits option.splits)


lemma step_position:
  assumes "s \<in> set (next_states (step st))"
  shows "script s = script st \<and> scriptOffset s = Suc (scriptOffset st)"
proof -
  let ?st1 = "st\<lparr>scriptOffset := scriptOffset st + 1\<rparr>"
  have "same_position ?st1 s"
  proof (cases "script st ! scriptOffset st")
    case (Push b)
    with assms show ?thesis
      by (simp add: step_def Let_def same_position_def split: if_splits)
  next
    case (Op c)
    with assms exec_opcode_position[of c "all_true (cs st)" ?st1] show ?thesis
      by (simp add: step_def Let_def same_position_def split: if_splits)
  qed
  then show ?thesis by (simp add: same_position_def)
qed

subsection \<open>analyze\<close>

text \<open>
  How a call of \<open>analyze\<close> ends: it returns (an error code, or nothing), it throws, or it
  does not return. \<open>Done\<close> carries the final state of the analyzer and the final states
  of the forks that were added to \<open>branches\<close> during the call, in the order of the
  registry. The value a fork's \<open>analyze\<close> returns is dropped, as in the source; what a
  fork throws passes through the caller.
\<close>

datatype outcome =
    Done "ScriptError option" ScriptAnalyzer "ScriptAnalyzer list"
  | Raised thrown
  | Diverged

fun then_branches :: "ScriptAnalyzer list \<Rightarrow> outcome \<Rightarrow> outcome" where
  "then_branches reg (Done r st bs) = Done r st (reg @ bs)"
| "then_branches reg (Raised t) = Raised t"
| "then_branches reg Diverged = Diverged"

text \<open>
  The end of the loop body: the check of the stack size, then the rest of the loop.
  \<open>reg\<close> are the forks registered during this iteration.
\<close>

definition after_switch :: "ScriptAnalyzer \<Rightarrow> ScriptAnalyzer list \<Rightarrow> outcome \<Rightarrow> outcome" where
  "after_switch st reg rest =
     (if length (stack st) + length (altstack st) > 1000
      then Done (Some SCRIPT_ERR_STACK_SIZE) st reg
      else then_branches reg rest)"

function analyze :: "ScriptAnalyzer \<Rightarrow> outcome" where
  "analyze st =
     (if scriptOffset st < length (script st) then
        (case step st of
           Skipped st1 \<Rightarrow> analyze st1
         | Executed st1 None \<Rightarrow> after_switch st1 [] (analyze st1)
         | Executed st1 (Some fork) \<Rightarrow>
             (case analyze fork of
                Done r fork1 bs \<Rightarrow> after_switch st1 (fork1 # bs) (analyze st1)
              | Raised t \<Rightarrow> Raised t
              | Diverged \<Rightarrow> Diverged)
         | Returned e st1 \<Rightarrow> Done (Some e) st1 []
         | Threw t \<Rightarrow> Raised t
         | Hung \<Rightarrow> Diverged)
      else case finish st of (r, st1) \<Rightarrow> Done r st1 [])"
  by pat_completeness auto
termination
proof (relation "measure (\<lambda>st. length (script st) - scriptOffset st)", goal_cases)
  case 1
  show ?case by simp
next
  case (2 st st1)
  then show ?case using step_position[of st1 st] by simp
next
  case (3 st st1 fo)
  then show ?case using step_position[of st1 st] by simp
next
  case (4 st st1 fo fork)
  then show ?case using step_position[of fork st] by simp
next
  case (5 st st1 fo fork r fork1 bs)
  then show ?case using step_position[of st1 st] by simp
qed

declare analyze.simps [simp del]

subsection \<open>Fresh variables, and the inputs of the examples\<close>

text \<open>
  The variables drawn for \<open>d\<close> missing slots when the counter stands at \<open>vc\<close>, from
  the bottom slot to the top one: the slot nearest the top has the smallest index.
\<close>

definition fresh_vars :: "nat \<Rightarrow> nat \<Rightarrow> expr list" where
  "fresh_vars vc d = map Var (rev [vc ..< vc + d])"

text \<open>
  A one-item script in a branch that is not executed: the condition stack holds one
  false value.
\<close>

definition unexecuted_state :: "item \<Rightarrow> ScriptAnalyzer" where
  "unexecuted_state it =
     (new_ScriptAnalyzer LEGACY ALL_RULES [it])\<lparr>cs := push_back False new_ConditionStack\<rparr>"

text \<open>The script \<open><01> <02> OP_NUMEQUALVERIFY OP_1\<close>.\<close>

definition numequalverify_script :: "item list" where
  "numequalverify_script = [Push [1], Push [2], Op OP_NUMEQUALVERIFY, Op OP_1]"

text \<open>A state about to run \<open>OP_NOTIF\<close> on a concrete element, for a version and rules.\<close>

definition if_state :: "ScriptVersion \<Rightarrow> ScriptRules \<Rightarrow> ScriptAnalyzer" where
  "if_state v r = (new_ScriptAnalyzer v r [Op OP_NOTIF])\<lparr>stack := [Var 0, Bytes [2]], varCounter := 1\<rparr>"

text \<open>
  A state about to run \<open>OP_CHECKMULTISIG\<close> on the stack
  \<open><> <07> <08> <02> <09> <0a> <0b> <03>\<close>: a dummy, two signatures and three keys.
\<close>

definition multisig_state :: "ScriptVersion \<Rightarrow> ScriptAnalyzer" where
  "multisig_state v =
     (new_ScriptAnalyzer v ALL_RULES [Op OP_CHECKMULTISIG])
       \<lparr>stack := [Bytes [], Bytes [7], Bytes [8], Bytes [2],
                  Bytes [9], Bytes [10], Bytes [11], Bytes [3]]\<rparr>"

subsection \<open>Byte lists as numbers\<close>

text \<open>
  The little-endian bytes of a magnitude, least significant first and without a leading
  zero byte, and the number a list of bytes stands for. They are used to state what the
  loops of \<open>encode\<close> and \<open>decode\<close> compute.
\<close>

fun magnitude_bytes :: "nat \<Rightarrow> int list" where
  "magnitude_bytes n = (if n = 0 then [] else int (n mod 256) # magnitude_bytes (n div 256))"

declare magnitude_bytes.simps [simp del]

fun le_value :: "int list \<Rightarrow> int" where
  "le_value [] = 0"
| "le_value (b # bs) = b + 256 * le_value bs"

subsection \<open>The invariant of the condition stack\<close>

text \<open>
  The size of the condition stack is never negative. \<open>step_ok\<close> says that the states a
  step hands on keep this, and that what it throws does not come from the condition
  stack; \<open>outcome_ok\<close> says the same of what \<open>analyze\<close> throws.
\<close>

definition cs_ok :: "ScriptAnalyzer \<Rightarrow> bool" where
  "cs_ok st \<longleftrightarrow> 0 \<le> m_stack_size (cs st)"

fun step_ok :: "step_result \<Rightarrow> bool" where
  "step_ok (Skipped st) = cs_ok st"
| "step_ok (Executed st None) = cs_ok st"
| "step_ok (Executed st (Some fork)) = (cs_ok st \<and> cs_ok fork)"
| "step_ok (Returned e st) = cs_ok st"
| "step_ok (Threw t) = (t \<noteq> Throw_pop_back \<and> t \<noteq> Throw_toggle_top)"
| "step_ok Hung = True"

definition outcome_ok :: "outcome \<Rightarrow> bool" where
  "outcome_ok r \<longleftrightarrow> r \<noteq> Raised Throw_pop_back \<and> r \<noteq> Raised Throw_toggle_top"

section \<open>Util: the canonical order of expressions\<close>

text \<open>
  \<open>Util.bufferCompare\<close>: the first differing byte decides, then the lengths.
\<close>

fun bufferCompare :: "bytes \<Rightarrow> bytes \<Rightarrow> int" where
  "bufferCompare (x # xs) (y # ys) =
     (if x < y then - 1 else if x > y then 1 else bufferCompare xs ys)"
| "bufferCompare [] (y # ys) = - 1"
| "bufferCompare (x # xs) [] = 1"
| "bufferCompare [] [] = 0"

text \<open>The table \<open>exprPriority\<close> and the function \<open>exprType\<close>.\<close>

definition exprPriority :: "string \<Rightarrow> int" where
  "exprPriority k = (if k = ''var'' then 2 else if k = ''opcode'' then 1 else 0)"

fun exprType :: "expr \<Rightarrow> string" where
  "exprType (App f as e) = ''opcode''"
| "exprType (Var v) = ''var''"
| "exprType (Bytes b) = ''value''"

text \<open>
  \<open>Util.exprCompareFn\<close>. \<open>compare_args\<close> is its loop over the arguments, which runs
  when both lists have the same length and returns the first result that is not 0; when
  there is none the function falls through to its last statement.
\<close>

fun exprCompareFn :: "expr \<Rightarrow> expr \<Rightarrow> int"
  and compare_args :: "expr list \<Rightarrow> expr list \<Rightarrow> int option" where
  "exprCompareFn (App f as e) (App g bs e') =
     (let s = f - g in
      if s \<noteq> 0 then s
      else
        let ldiff = int (length as) - int (length bs) in
        if ldiff \<noteq> 0 then ldiff
        else case compare_args as bs of
          Some s1 \<Rightarrow> s1
        | None \<Rightarrow> exprPriority (exprType (App g bs e')) - exprPriority (exprType (App f as e)))"
| "exprCompareFn (Var v) (Var w) = int v - int w"
| "exprCompareFn (Bytes a) (Bytes b) = bufferCompare a b"
| "exprCompareFn a b = exprPriority (exprType b) - exprPriority (exprType a)"
| "compare_args (a # as) (b # bs) =
     (let s1 = exprCompareFn a b in if s1 \<noteq> 0 then Some s1 else compare_args as bs)"
| "compare_args as bs = None"

text \<open>
  \<open>Array.prototype.sort(compareFn)\<close> is a stable sort. It is modelled by stable
  insertion: an element goes in front of the first element it does not compare greater
  than.
\<close>

fun sort_insert :: "('a \<Rightarrow> 'a \<Rightarrow> int) \<Rightarrow> 'a \<Rightarrow> 'a list \<Rightarrow> 'a list" where
  "sort_insert cmp x [] = [x]"
| "sort_insert cmp x (y # ys) =
     (if cmp x y \<le> 0 then x # y # ys else y # sort_insert cmp x ys)"

definition array_sort :: "('a \<Rightarrow> 'a \<Rightarrow> int) \<Rightarrow> 'a list \<Rightarrow> 'a list" where
  "array_sort cmp xs = foldr (sort_insert cmp) xs []"

lemma set_sort_insert [simp]: "set (sort_insert cmp x ys) = insert x (set ys)"
  by (induction ys) auto

lemma set_array_sort [simp]: "set (array_sort cmp xs) = set xs"
  by (induction xs) (simp_all add: array_sort_def)

text \<open>
  \<open>Util.normalizeExprs\<close> sorts the list and then normalizes the arguments of every
  expression whose opcode is not in the list below. Expressions are values here: the
  source sorts the argument arrays in place, and an array that two expressions share is
  sorted for both.
\<close>

definition keeps_args_order :: "int list" where
  "keeps_args_order =
     [OP_CHECKMULTISIG, OP_CHECKSIG, OP_GREATERTHAN, OP_GREATERTHANOREQUAL,
      OP_LESSTHAN, OP_LESSTHANOREQUAL, OP_SUB, OP_WITHIN]"

function normalizeExprs :: "expr list \<Rightarrow> expr list" where
  "normalizeExprs exprs =
     map (\<lambda>expr. case expr of
            App f as e \<Rightarrow>
              if f \<notin> set keeps_args_order then App f (normalizeExprs as) e else expr
          | Var v \<Rightarrow> expr
          | Bytes b \<Rightarrow> expr)
       (array_sort exprCompareFn exprs)"
  by pat_completeness auto
termination
proof (relation "measure (size_list size)", goal_cases)
  case 1
  show ?case by simp
next
  case (2 exprs x f as e)
  then have "x \<in> set exprs" by simp
  moreover have "size_list size as < size x" using 2 by simp
  ultimately have "size_list size as < size_list size exprs"
    by (rule size_list_estimation)
  then show ?case by simp
qed

declare normalizeExprs.simps [simp del]


text \<open>The position of a variant in the order: variables, applications, byte strings.\<close>

fun expr_rank :: "expr \<Rightarrow> nat" where
  "expr_rank (Var v) = 0"
| "expr_rank (App f as e) = 1"
| "expr_rank (Bytes b) = 2"

text \<open>A conjunct list with one expression of each variant.\<close>

definition mixed_conjuncts :: "expr list" where
  "mixed_conjuncts =
     [Bytes [1], App OP_CHECKSIG [Var 1, Var 0] None, Var 2]"

section \<open>Properties of the condition stack\<close>

lemma first_false_range: "first_false v = NO_FALSE \<or> (0 \<le> first_false v \<and> first_false v < int (length v))"
proof (cases "list_all (\<lambda>b. b) v")
  case True
  then show ?thesis by (simp add: first_false_def)
next
  case False
  then have "takeWhile (\<lambda>b. b) v \<noteq> v" by (simp add: list_all_iff)
  then have "length (takeWhile (\<lambda>b. b) v) \<noteq> length v"
    by (metis takeWhile_eq_take take_all order_refl)
  with length_takeWhile_le[of "\<lambda>b. b" v] have "length (takeWhile (\<lambda>b. b) v) < length v"
    by linarith
  with False show ?thesis by (simp add: first_false_def)
qed

lemma first_false_snoc:
  "first_false (v @ [f]) = (if first_false v = NO_FALSE then (if f then NO_FALSE else int (length v)) else first_false v)"
proof (cases "list_all (\<lambda>b. b) v")
  case True
  then have "takeWhile (\<lambda>b. b) (v @ [f]) = v @ takeWhile (\<lambda>b. b) [f]"
    by (intro takeWhile_append2) (auto simp: list_all_iff)
  moreover have "list_all (\<lambda>b. b) (v @ [f]) = f" using True by simp
  ultimately show ?thesis using True by (cases f) (simp_all add: first_false_def NO_FALSE_def)
next
  case False
  then have "takeWhile (\<lambda>b. b) (v @ [f]) = takeWhile (\<lambda>b. b) v"
    by (auto simp: list_all_iff)
  with False show ?thesis by (simp add: first_false_def NO_FALSE_def)
qed

lemma first_false_all: "first_false v = NO_FALSE \<longleftrightarrow> list_all (\<lambda>b. b) v"
  unfolding first_false_def NO_FALSE_def by simp

lemma cs_rel_push: "cs_rel c v \<Longrightarrow> cs_rel (push_back f c) (v @ [f])"
  unfolding cs_rel_def push_back_def by (auto simp: first_false_snoc Let_def)

lemma cs_rel_pop:
  assumes "cs_rel c v" "v \<noteq> []"
  shows "\<exists>c'. pop_back c = Inr c' \<and> cs_rel c' (butlast v)"
proof -
  obtain w f where v: "v = w @ [f]" using assms(2) by (metis append_butlast_last_id)
  have r: "first_false w = NO_FALSE \<or> (0 \<le> first_false w \<and> first_false w < int (length w))"
    by (rule first_false_range)
  show ?thesis using assms(1) r unfolding v cs_rel_def pop_back_def
    by (auto simp: first_false_snoc Let_def NO_FALSE_def split: if_splits)
qed

lemma cs_rel_toggle:
  assumes "cs_rel c v" "v \<noteq> []"
  shows "\<exists>c'. toggle_top c = Inr c' \<and> cs_rel c' (butlast v @ [\<not> last v])"
proof -
  obtain w f where v: "v = w @ [f]" using assms(2) by (metis append_butlast_last_id)
  have r: "first_false w = NO_FALSE \<or> (0 \<le> first_false w \<and> first_false w < int (length w))"
    by (rule first_false_range)
  show ?thesis using assms(1) r unfolding v cs_rel_def toggle_top_def
    by (auto simp: first_false_snoc Let_def NO_FALSE_def split: if_splits)
qed

lemma cs_rel_step:
  "cs_rel c v \<Longrightarrow> vector_op p v = Some v' \<Longrightarrow> \<exists>c'. apply_cs_op p c = Inr c' \<and> cs_rel c' v'"
  by (cases p) (auto simp: cs_rel_push dest: cs_rel_pop cs_rel_toggle split: if_splits)

lemma cs_rel_run:
  "cs_rel c v \<Longrightarrow> run_vector ps v = Some v' \<Longrightarrow> \<exists>c'. run_cs ps c = Inr c' \<and> cs_rel c' v'"
proof (induction ps arbitrary: c v)
  case Nil
  then show ?case by simp
next
  case (Cons p ps)
  from Cons.prems(2) obtain v1 where v1: "vector_op p v = Some v1" "run_vector ps v1 = Some v'"
    by (auto split: option.splits)
  from cs_rel_step[OF Cons.prems(1) v1(1)] obtain c1 where c1: "apply_cs_op p c = Inr c1" "cs_rel c1 v1"
    by blast
  from Cons.IH[OF c1(2) v1(2)] c1(1) show ?case by simp
qed

lemma cs_rel_new: "cs_rel new_ConditionStack []"
  by (simp add: cs_rel_def new_ConditionStack_def first_false_def)

lemma cs_rel_observe: "cs_rel c v \<Longrightarrow> empty_cs c = (v = []) \<and> all_true c = list_all (\<lambda>b. b) v"
  by (auto simp: cs_rel_def empty_cs_def all_true_def first_false_all)

text \<open>
  Claim C7. For every sequence of \<open>push_back\<close>, \<open>pop_back\<close> and \<open>toggle_top\<close>
  that never pops or toggles the empty vector, the \<open>ConditionStack\<close> started from
  \<open>new ConditionStack()\<close> runs the whole sequence without throwing, and afterwards
  \<open>empty()\<close> tells whether the vector is empty and \<open>all_true()\<close> is the conjunction
  of the vector's values.
\<close>

theorem ConditionStack_simulates_vector:
  assumes "run_vector ps [] = Some v"
  shows "\<exists>c. run_cs ps new_ConditionStack = Inr c \<and> empty_cs c = (v = []) \<and> all_true c = list_all (\<lambda>b. b) v"
  using cs_rel_run[OF cs_rel_new assms] cs_rel_observe by blast

theorem ConditionStack_simulates_vector_witness:
  "run_vector [Push_back True, Push_back False, Toggle_top, Push_back False, Pop_back] [] = Some [True, True]
   \<and> (\<exists>c. run_cs [Push_back True, Push_back False, Toggle_top, Push_back False, Pop_back] new_ConditionStack = Inr c
        \<and> empty_cs c = ([True, True] = []) \<and> all_true c = list_all (\<lambda>b. b) [True, True])"
proof -
  have h: "run_vector [Push_back True, Push_back False, Toggle_top, Push_back False, Pop_back] [] = Some [True, True]"
    by simp
  show ?thesis using h ConditionStack_simulates_vector[OF h] by blast
qed

section \<open>Properties of the stack primitives\<close>

lemma clone_id [simp]: "clone c = c"
  by (simp add: clone_def)

lemma fresh_vars_0 [simp]: "fresh_vars vc 0 = []"
  by (simp add: fresh_vars_def)

lemma fresh_vars_Suc: "fresh_vars vc (Suc d) = fresh_vars (Suc vc) d @ [Var vc]"
  by (simp add: fresh_vars_def upt_rec[of vc "Suc (vc + d)"] del: upt_Suc)

lemma fresh_vars_Suc_front: "fresh_vars vc (Suc d) = Var (vc + d) # fresh_vars vc d"
  by (simp add: fresh_vars_def)

lemma take_loop_closed:
  "take_loop n res st =
     (fresh_vars (varCounter st) (n - length (stack st))
        @ drop (length (stack st) - n) (stack st) @ res,
      st\<lparr>stack := take (length (stack st) - n) (stack st),
         varCounter := varCounter st + (n - length (stack st))\<rparr>)"
proof (induction n arbitrary: res st)
  case 0
  then show ?case by simp
next
  case (Suc n)
  show ?case
  proof (cases "stack st = []")
    case True
    then show ?thesis by (simp add: Suc.IH fresh_vars_Suc)
  next
    case False
    then obtain s x where s: "stack st = s @ [x]" by (metis append_butlast_last_id)
    have "Suc n - Suc (length s) = n - length s" by simp
    then show ?thesis by (simp add: Suc.IH s Suc_diff_le)
  qed
qed

lemma read_loop_closed:
  "read_loop n st =
     st\<lparr>stack := fresh_vars (varCounter st) (n - length (stack st)) @ stack st,
        varCounter := varCounter st + (n - length (stack st))\<rparr>"
proof (induction n st rule: read_loop.induct)
  case (1 amount st)
  show ?case
  proof (cases "length (stack st) < amount")
    case True
    then have d: "amount - length (stack st) = Suc (amount - Suc (length (stack st)))" by simp
    have ih: "read_loop amount
                (st\<lparr>stack := Var (varCounter st) # stack st, varCounter := Suc (varCounter st)\<rparr>)
              = st\<lparr>stack := (fresh_vars (Suc (varCounter st)) (amount - Suc (length (stack st)))
                               @ [Var (varCounter st)]) @ stack st,
                    varCounter := Suc (varCounter st) + (amount - Suc (length (stack st)))\<rparr>"
      using 1[OF True] by simp
    show ?thesis
      by (subst read_loop.simps) (simp add: True ih d fresh_vars_Suc)
  next
    case False
    then show ?thesis by (subst read_loop.simps) simp
  qed
qed

text \<open>
  Claim C10. From the same state, \<open>readElements(k)\<close> and \<open>takeElements(k)\<close> return the
  same list, bottom first: the variables \<open>vc + d - 1, ..., vc\<close> for the \<open>d\<close> slots the
  stack lacks (the smallest new index nearest the top), then the top of the stack. Both
  leave the same variable counter. \<open>takeElements\<close> leaves the stack without these
  slots, \<open>readElements\<close> leaves it padded and holding them.
\<close>

theorem readElements_takeElements:
  "fst (readElements k st) = fst (takeElements k st)
   \<and> fst (takeElements k st) =
       map Var (rev [varCounter st ..< varCounter st + (k - length (stack st))])
         @ drop (length (stack st) - k) (stack st)
   \<and> varCounter (snd (readElements k st)) = varCounter (snd (takeElements k st))
   \<and> stack (snd (takeElements k st)) = take (length (stack st) - k) (stack st)
   \<and> stack (snd (readElements k st)) = stack (snd (takeElements k st)) @ fst (takeElements k st)"
proof -
  have len: "length (fresh_vars (varCounter st) (k - length (stack st))) = k - length (stack st)"
    by (simp add: fresh_vars_def)
  have "fst (readElements k st) = fst (takeElements k st)
   \<and> fst (takeElements k st) =
       fresh_vars (varCounter st) (k - length (stack st))
         @ drop (length (stack st) - k) (stack st)
   \<and> varCounter (snd (readElements k st)) = varCounter (snd (takeElements k st))
   \<and> stack (snd (takeElements k st)) = take (length (stack st) - k) (stack st)
   \<and> stack (snd (readElements k st)) = stack (snd (takeElements k st)) @ fst (takeElements k st)"
    by (cases "length (stack st) \<le> k")
       (simp_all add: readElements_def takeElements_def take_loop_closed read_loop_closed Let_def len)
  then show ?thesis by (simp add: fresh_vars_def)
qed

theorem readElements_takeElements_witness:
  "fst (readElements 3 ((new_ScriptAnalyzer LEGACY ALL_RULES [])\<lparr>stack := [Bytes [1]]\<rparr>))
     = [Var 1, Var 0, Bytes [1]]
   \<and> fst (takeElements 3 ((new_ScriptAnalyzer LEGACY ALL_RULES [])\<lparr>stack := [Bytes [1]]\<rparr>))
     = [Var 1, Var 0, Bytes [1]]
   \<and> stack (snd (takeElements 3 ((new_ScriptAnalyzer LEGACY ALL_RULES [])\<lparr>stack := [Bytes [1]]\<rparr>)))
     = []
   \<and> stack (snd (readElements 3 ((new_ScriptAnalyzer LEGACY ALL_RULES [])\<lparr>stack := [Bytes [1]]\<rparr>)))
     = [Var 1, Var 0, Bytes [1]]"
  using readElements_takeElements
          [of 3 "(new_ScriptAnalyzer LEGACY ALL_RULES [])\<lparr>stack := [Bytes [1]]\<rparr>"]
  by (simp add: new_ScriptAnalyzer_def upt_rec)

section \<open>Properties of a step\<close>

text \<open>
  Claim C1 as stated fails for \<open>OP_VERIF\<close>: in a branch that is not executed the opcode
  is not skipped, the step returns \<open>SCRIPT_ERR_BAD_OPCODE\<close>.
\<close>

theorem OP_VERIF_not_skipped_counterexample:
  "\<not> all_true (cs (unexecuted_state (Op OP_VERIF)))
   \<and> step (unexecuted_state (Op OP_VERIF))
       = Returned SCRIPT_ERR_BAD_OPCODE ((unexecuted_state (Op OP_VERIF))\<lparr>scriptOffset := 1\<rparr>)
   \<and> step (unexecuted_state (Op OP_VERIF))
       \<noteq> Skipped ((unexecuted_state (Op OP_VERIF))\<lparr>scriptOffset := 1\<rparr>)"
  by (simp add: unexecuted_state_def new_ScriptAnalyzer_def new_ConditionStack_def push_back_def
      all_true_def NO_FALSE_def step_def exec_opcode_def Let_def)

text \<open>
  Claim C1, amended. When \<open>cs.all_true()\<close> is false, a data push and every opcode below
  \<open>OP_IF\<close> or above \<open>OP_ENDIF\<close> (\<open>OP_VER\<close> among them) is skipped: the step changes
  nothing but the script offset, returns no error, and the analysis goes on with the next
  item. \<open>OP_VERIF\<close> and \<open>OP_VERNOTIF\<close> lie between \<open>OP_IF\<close> and \<open>OP_ENDIF\<close>: they
  are dispatched and end the path with \<open>SCRIPT_ERR_BAD_OPCODE\<close>.
\<close>

theorem unexecuted_item_skipped:
  assumes "scriptOffset st < length (script st)"
      and "\<not> all_true (cs st)"
      and "script st ! scriptOffset st = it"
  shows "(((\<exists>b. it = Push b) \<or> (\<exists>c. it = Op c \<and> (c < OP_IF \<or> OP_ENDIF < c)))
            \<longrightarrow> step st = Skipped (st\<lparr>scriptOffset := scriptOffset st + 1\<rparr>)
                \<and> analyze st = analyze (st\<lparr>scriptOffset := scriptOffset st + 1\<rparr>))
       \<and> (it = Op OP_VERIF \<or> it = Op OP_VERNOTIF
            \<longrightarrow> step st = Returned SCRIPT_ERR_BAD_OPCODE (st\<lparr>scriptOffset := scriptOffset st + 1\<rparr>)
                \<and> analyze st
                    = Done (Some SCRIPT_ERR_BAD_OPCODE) (st\<lparr>scriptOffset := scriptOffset st + 1\<rparr>) [])"
proof (intro conjI impI)
  assume skip: "(\<exists>b. it = Push b) \<or> (\<exists>c. it = Op c \<and> (c < OP_IF \<or> OP_ENDIF < c))"
  then show s: "step st = Skipped (st\<lparr>scriptOffset := scriptOffset st + 1\<rparr>)"
    using assms(2,3) by (auto simp: step_def Let_def)
  show "analyze st = analyze (st\<lparr>scriptOffset := scriptOffset st + 1\<rparr>)"
    by (subst analyze.simps) (simp add: assms(1) s)
next
  assume v: "it = Op OP_VERIF \<or> it = Op OP_VERNOTIF"
  then show s: "step st = Returned SCRIPT_ERR_BAD_OPCODE (st\<lparr>scriptOffset := scriptOffset st + 1\<rparr>)"
    using assms(2,3) by (auto simp: step_def Let_def exec_opcode_def)
  show "analyze st = Done (Some SCRIPT_ERR_BAD_OPCODE) (st\<lparr>scriptOffset := scriptOffset st + 1\<rparr>) []"
    by (subst analyze.simps) (simp add: assms(1) s)
qed

theorem unexecuted_item_skipped_witness:
  "step (unexecuted_state (Op OP_VER)) = Skipped ((unexecuted_state (Op OP_VER))\<lparr>scriptOffset := 1\<rparr>)
   \<and> step (unexecuted_state (Push [1])) = Skipped ((unexecuted_state (Push [1]))\<lparr>scriptOffset := 1\<rparr>)
   \<and> analyze (unexecuted_state (Op OP_VERNOTIF))
       = Done (Some SCRIPT_ERR_BAD_OPCODE) ((unexecuted_state (Op OP_VERNOTIF))\<lparr>scriptOffset := 1\<rparr>) []"
proof -
  have a: "\<And>it. scriptOffset (unexecuted_state it) < length (script (unexecuted_state it))"
    and b: "\<And>it. \<not> all_true (cs (unexecuted_state it))"
    and c: "\<And>it. script (unexecuted_state it) ! scriptOffset (unexecuted_state it) = it"
    and d: "\<And>it. scriptOffset (unexecuted_state it) = 0"
    by (simp_all add: unexecuted_state_def new_ScriptAnalyzer_def new_ConditionStack_def
        push_back_def all_true_def NO_FALSE_def)
  show ?thesis
    using unexecuted_item_skipped[OF a b c, of "Op OP_VER"]
      unexecuted_item_skipped[OF a b c, of "Push [1]"]
      unexecuted_item_skipped[OF a b c, of "Op OP_VERNOTIF"]
    by (simp add: d)
qed

lemma takeElements_1:
  "takeElements 1 st =
     ([if stack st = [] then Var (varCounter st) else last (stack st)],
      st\<lparr>stack := butlast (stack st),
         varCounter := varCounter st + (if stack st = [] then 1 else 0)\<rparr>)"
  by (simp add: takeElements_def)

lemma takeElements_Suc_0:
  "takeElements (Suc 0) st =
     ([if stack st = [] then Var (varCounter st) else last (stack st)],
      st\<lparr>stack := butlast (stack st),
         varCounter := varCounter st + (if stack st = [] then 1 else 0)\<rparr>)"
  using takeElements_1[of st] by simp

subsection \<open>OP_NUMEQUALVERIFY\<close>

text \<open>
  The case of the binary operators tests \<open>op === OP_EQUALVERIFY\<close> before it verifies,
  and \<open>OP_EQUALVERIFY\<close> never reaches this case: \<open>OP_NUMEQUALVERIFY\<close> pushes
  \<open>OP_NUMEQUAL(a, b)\<close> and stops there.
\<close>

lemma step_NUMEQUALVERIFY:
  assumes "all_true (cs st)" and "script st ! scriptOffset st = Op OP_NUMEQUALVERIFY"
  shows "step st =
           (case takeElements 2 (st\<lparr>scriptOffset := scriptOffset st + 1\<rparr>) of (elems, st1) \<Rightarrow>
              Executed (push_stack [App OP_NUMEQUAL elems None] st1) None)"
  using assms by (simp add: step_def exec_opcode_def Let_def)

text \<open>
  Claim C2 fails on the code. On a stack holding \<open><01> <02>\<close>, \<open>OP_NUMEQUALVERIFY\<close>
  leaves \<open>OP_NUMEQUAL(<01>, <02>)\<close> on the stack and adds no spending condition; the
  script \<open><01> <02> OP_NUMEQUALVERIFY OP_1\<close> then ends with two stack items and fails
  \<open>SCRIPT_ERR_CLEANSTACK\<close>.
\<close>

theorem NUMEQUALVERIFY_leaves_result_on_stack:
  "step ((new_ScriptAnalyzer LEGACY ALL_RULES numequalverify_script)
           \<lparr>stack := [Bytes [1], Bytes [2]], scriptOffset := 2\<rparr>)
     = Executed
         ((new_ScriptAnalyzer LEGACY ALL_RULES numequalverify_script)
            \<lparr>stack := [App OP_NUMEQUAL [Bytes [1], Bytes [2]] None], scriptOffset := 3\<rparr>)
         None
   \<and> analyze (new_ScriptAnalyzer LEGACY ALL_RULES numequalverify_script)
     = Done (Some SCRIPT_ERR_CLEANSTACK)
         ((new_ScriptAnalyzer LEGACY ALL_RULES numequalverify_script)
            \<lparr>stack := [App OP_NUMEQUAL [Bytes [1], Bytes [2]] None, Bytes [1]],
             scriptOffset := 4\<rparr>)
         []"
proof -
  have 1: "step ((new_ScriptAnalyzer LEGACY ALL_RULES numequalverify_script)
           \<lparr>stack := [Bytes [1], Bytes [2]], scriptOffset := 2\<rparr>)
     = Executed
         ((new_ScriptAnalyzer LEGACY ALL_RULES numequalverify_script)
            \<lparr>stack := [App OP_NUMEQUAL [Bytes [1], Bytes [2]] None], scriptOffset := 3\<rparr>)
         None"
    by (simp add: step_NUMEQUALVERIFY new_ScriptAnalyzer_def numequalverify_script_def
        new_ConditionStack_def all_true_def takeElements_def push_stack_def numeral_2_eq_2)
  have 2: "analyze (new_ScriptAnalyzer LEGACY ALL_RULES numequalverify_script)
     = Done (Some SCRIPT_ERR_CLEANSTACK)
         ((new_ScriptAnalyzer LEGACY ALL_RULES numequalverify_script)
            \<lparr>stack := [App OP_NUMEQUAL [Bytes [1], Bytes [2]] None, Bytes [1]],
             scriptOffset := 4\<rparr>)
         []"
    by (simp add: analyze.simps step_def exec_opcode_def finish_def after_switch_def Let_def
        new_ScriptAnalyzer_def numequalverify_script_def new_ConditionStack_def all_true_def
        empty_cs_def takeElements_def push_stack_def numeral_2_eq_2)
  from 1 2 show ?thesis by simp
qed



subsection \<open>OP_IF and OP_NOTIF\<close>

text \<open>
  Claim C4. With \<open>cs.all_true()\<close>, \<open>OP_IF\<close> and \<open>OP_NOTIF\<close> take one element \<open>e\<close>
  and make a fork (a copy of the state after the take, with \<open>path + 1\<close>); this state's
  condition stack gets \<open>op == OP_IF\<close> and the fork's the opposite. When the version is
  \<open>SEGWITV1\<close>, or \<open>SEGWITV0\<close> with the rules \<open>ALL\<close>, this state gets the condition
  \<open>OP_EQUAL(e, TRUE)\<close> and the fork \<open>OP_EQUAL(e, FALSE)\<close>, both with the error
  \<open>TAPSCRIPT_MINIMALIF\<close> under \<open>SEGWITV1\<close> and \<open>MINIMALIF\<close> otherwise; in every other
  configuration this state gets \<open>e\<close> and the fork \<open>INTERNAL_NOT(e)\<close>.
\<close>

theorem OP_IF_NOTIF_forks:
  assumes "all_true (cs st)"
      and "script st ! scriptOffset st = Op op"
      and "op = OP_IF \<or> op = OP_NOTIF"
  shows "let taken = takeElements 1 (st\<lparr>scriptOffset := scriptOffset st + 1\<rparr>);
             e = fst taken ! 0;
             st1 = snd taken;
             minimalIf = (version st = SEGWITV1 \<or> (version st = SEGWITV0 \<and> rules st = ALL_RULES));
             err = (if version st = SEGWITV1 then SCRIPT_ERR_TAPSCRIPT_MINIMALIF
                    else SCRIPT_ERR_MINIMALIF)
         in fst taken = [e]
            \<and> step st =
                Executed
                  (st1\<lparr>cs := push_back (op = OP_IF) (cs st),
                       spendingConditions := spendingConditions st @
                         [if minimalIf then App OP_EQUAL [e, Bytes Bool_TRUE] (Some err) else e]\<rparr>)
                  (Some (st1\<lparr>path := path st + 1,
                       cs := push_back (op \<noteq> OP_IF) (cs st),
                       spendingConditions := spendingConditions st @
                         [if minimalIf then App OP_EQUAL [e, Bytes Bool_FALSE] (Some err)
                          else App INTERNAL_NOT [e] None]\<rparr>))"
  using assms
  by (auto simp: step_def exec_opcode_def op_if_notif_def Let_def takeElements_Suc_0
      push_condition_def fork_ScriptAnalyzer_def)

theorem OP_IF_NOTIF_forks_witness:
  "step (if_state SEGWITV1 CONSENSUS_ONLY) =
     Executed
       ((if_state SEGWITV1 CONSENSUS_ONLY)
          \<lparr>scriptOffset := 1, stack := [Var 0],
           cs := \<lparr>m_stack_size = 1, m_first_false_pos = 0\<rparr>,
           spendingConditions :=
             [App OP_EQUAL [Bytes [2], Bytes [1]] (Some SCRIPT_ERR_TAPSCRIPT_MINIMALIF)]\<rparr>)
       (Some ((if_state SEGWITV1 CONSENSUS_ONLY)
          \<lparr>scriptOffset := 1, stack := [Var 0], path := 1,
           cs := \<lparr>m_stack_size = 1, m_first_false_pos = - 1\<rparr>,
           spendingConditions :=
             [App OP_EQUAL [Bytes [2], Bytes []] (Some SCRIPT_ERR_TAPSCRIPT_MINIMALIF)]\<rparr>))
   \<and> step (if_state SEGWITV0 CONSENSUS_ONLY) =
     Executed
       ((if_state SEGWITV0 CONSENSUS_ONLY)
          \<lparr>scriptOffset := 1, stack := [Var 0],
           cs := \<lparr>m_stack_size = 1, m_first_false_pos = 0\<rparr>,
           spendingConditions := [Bytes [2]]\<rparr>)
       (Some ((if_state SEGWITV0 CONSENSUS_ONLY)
          \<lparr>scriptOffset := 1, stack := [Var 0], path := 1,
           cs := \<lparr>m_stack_size = 1, m_first_false_pos = - 1\<rparr>,
           spendingConditions := [App INTERNAL_NOT [Bytes [2]] None]\<rparr>))"
proof -
  have a: "\<And>v r. all_true (cs (if_state v r))"
    and b: "\<And>v r. script (if_state v r) ! scriptOffset (if_state v r) = Op OP_NOTIF"
    by (simp_all add: if_state_def new_ScriptAnalyzer_def new_ConditionStack_def all_true_def)
  have c: "OP_NOTIF = OP_IF \<or> OP_NOTIF = OP_NOTIF" by simp
  show ?thesis
    using OP_IF_NOTIF_forks[OF a b c, of SEGWITV1 CONSENSUS_ONLY]
      OP_IF_NOTIF_forks[OF a b c, of SEGWITV0 CONSENSUS_ONLY]
    by (simp add: Let_def takeElements_Suc_0 if_state_def new_ScriptAnalyzer_def
        new_ConditionStack_def push_back_def NO_FALSE_def Bool_TRUE_def Bool_FALSE_def)
qed

section \<open>Properties of analyze\<close>

text \<open>
  Claim C6. At the end of the script: a condition stack that is not empty fails
  \<open>UNBALANCED_CONDITIONAL\<close>; otherwise more than one stack item fails \<open>CLEANSTACK\<close>;
  otherwise the lone item (a fresh variable when the stack is empty) is verified: a
  concrete item that decodes to false fails \<open>EVAL_FALSE\<close>, a concrete true item is
  consumed, and a symbolic item is appended to the spending conditions and the path
  completes.
\<close>

theorem analyze_after_the_script:
  assumes "\<not> scriptOffset st < length (script st)"
  shows "analyze st =
     (if \<not> empty_cs (cs st) then Done (Some SCRIPT_ERR_UNBALANCED_CONDITIONAL) st []
      else if length (stack st) > 1 then Done (Some SCRIPT_ERR_CLEANSTACK) st []
      else
        let item = (if stack st = [] then Var (varCounter st) else last (stack st));
            st1 = st\<lparr>stack := [],
                     varCounter := varCounter st + (if stack st = [] then 1 else 0)\<rparr>
        in case item of
             Bytes b \<Rightarrow>
               if Bool_decode b then Done None st1 []
               else Done (Some SCRIPT_ERR_EVAL_FALSE) st1 []
           | Var v \<Rightarrow>
               Done None (st1\<lparr>spendingConditions := spendingConditions st @ [Var v]\<rparr>) []
           | App f as e \<Rightarrow>
               Done None (st1\<lparr>spendingConditions := spendingConditions st @ [App f as e]\<rparr>) [])"
proof -
  have fin: "analyze st = (case finish st of (r, st1) \<Rightarrow> Done r st1 [])"
    using assms by (subst analyze.simps) simp
  consider (unbalanced) "\<not> empty_cs (cs st)"
    | (unclean) "empty_cs (cs st)" "length (stack st) > 1"
    | (none) "empty_cs (cs st)" "stack st = []"
    | (one) x where "empty_cs (cs st)" "stack st = [x]"
    by (cases "stack st" rule: list.exhaust; cases "tl (stack st)") auto
  then show ?thesis
  proof cases
    case unbalanced
    then show ?thesis by (simp add: fin finish_def)
  next
    case unclean
    then show ?thesis by (simp add: fin finish_def)
  next
    case none
    then show ?thesis
      by (simp add: fin finish_def verify_def takeElements_Suc_0 push_condition_def)
  next
    case one
    then show ?thesis
      by (cases x) (simp_all add: fin finish_def verify_def takeElements_Suc_0 push_condition_def)
  qed
qed

theorem analyze_after_the_script_witness:
  "analyze ((new_ScriptAnalyzer LEGACY ALL_RULES [])\<lparr>stack := [Bytes [0, 0x80]]\<rparr>)
     = Done (Some SCRIPT_ERR_EVAL_FALSE) (new_ScriptAnalyzer LEGACY ALL_RULES []) []
   \<and> analyze (new_ScriptAnalyzer LEGACY ALL_RULES [])
     = Done None ((new_ScriptAnalyzer LEGACY ALL_RULES [])
                    \<lparr>varCounter := 1, spendingConditions := [Var 0]\<rparr>) []
   \<and> analyze ((new_ScriptAnalyzer LEGACY ALL_RULES [])\<lparr>stack := [Var 0, Var 1]\<rparr>)
     = Done (Some SCRIPT_ERR_CLEANSTACK)
         ((new_ScriptAnalyzer LEGACY ALL_RULES [])\<lparr>stack := [Var 0, Var 1]\<rparr>) []
   \<and> analyze ((new_ScriptAnalyzer LEGACY ALL_RULES [])\<lparr>cs := push_back True new_ConditionStack\<rparr>)
     = Done (Some SCRIPT_ERR_UNBALANCED_CONDITIONAL)
         ((new_ScriptAnalyzer LEGACY ALL_RULES [])\<lparr>cs := push_back True new_ConditionStack\<rparr>) []"
proof -
  have a: "\<And>s. \<not> scriptOffset ((new_ScriptAnalyzer LEGACY ALL_RULES [])\<lparr>stack := s\<rparr>)
              < length (script ((new_ScriptAnalyzer LEGACY ALL_RULES [])\<lparr>stack := s\<rparr>))"
    and b: "\<not> scriptOffset (new_ScriptAnalyzer LEGACY ALL_RULES [])
              < length (script (new_ScriptAnalyzer LEGACY ALL_RULES []))"
    and c: "\<And>c. \<not> scriptOffset ((new_ScriptAnalyzer LEGACY ALL_RULES [])\<lparr>cs := c\<rparr>)
              < length (script ((new_ScriptAnalyzer LEGACY ALL_RULES [])\<lparr>cs := c\<rparr>))"
    by (simp_all add: new_ScriptAnalyzer_def)
  show ?thesis
    using analyze_after_the_script[OF a, of "[Bytes [0, 0x80]]"]
      analyze_after_the_script[OF b]
      analyze_after_the_script[OF a, of "[Var 0, Var 1]"]
      analyze_after_the_script[OF c, of "push_back True new_ConditionStack"]
    by (simp add: new_ScriptAnalyzer_def new_ConditionStack_def push_back_def empty_cs_def
        NO_FALSE_def Let_def)
qed

section \<open>Properties of the codec\<close>

subsection \<open>The 32-bit operators on small operands\<close>

lemma sint_of_int_32:
  "- 2147483648 \<le> x \<Longrightarrow> x < 2147483648 \<Longrightarrow> sint (word_of_int x :: 32 word) = x"
  by (simp add: sint_sbintrunc' signed_take_bit_int_eq_self)

lemma js_and_0xff:
  assumes "0 \<le> a" "a < 2 ^ 31"
  shows "js_and a 0xff = a mod 256"
proof -
  have "(word_of_int a :: 32 word) AND word_of_int 255 = word_of_int (a AND 255)"
    by (simp add: of_int_and_eq)
  moreover have "a AND 255 = a mod 256"
    using take_bit_eq_mask[of 8 a] by (simp add: take_bit_eq_mod mask_eq_exp_minus_1)
  moreover have "0 \<le> a mod 256" "a mod 256 < 256" by simp_all
  ultimately show ?thesis
    by (simp add: js_and_def sint_of_int_32)
qed

lemma js_sar_8:
  assumes "0 \<le> a" "a < 2 ^ 31"
  shows "js_sar a 8 = a div 256"
  using assms by (simp add: js_sar_def sint_signed_drop_bit_eq sint_of_int_32 drop_bit_eq_div)


lemma low_and_shifted:
  assumes "0 \<le> x" "x < 2 ^ k"
  shows "x AND push_bit k y = (0::int)"
proof -
  have "take_bit k x AND push_bit k y = 0"
    by (auto simp: bit_eq_iff bit_simps)
  then show ?thesis using assms by (simp add: take_bit_int_eq_self)
qed

lemma low_or_shifted:
  assumes "0 \<le> x" "x < 2 ^ k"
  shows "x OR push_bit k y = x + push_bit k (y::int)"
  using low_and_shifted[OF assms, of y] by (simp add: disjunctive_add_eq_or)

lemma js_or_int: "js_or x z = sint (word_of_int (x OR z) :: 32 word)"
  by (simp add: js_or_def of_int_or_eq)

lemma js_and_int: "js_and x z = sint (word_of_int (x AND z) :: 32 word)"
  by (simp add: js_and_def of_int_and_eq)

lemma js_or_shifted:
  assumes "0 \<le> x" "x < 2 ^ k" "0 \<le> y" "x + y * 2 ^ k < 2 ^ 31"
  shows "js_or x (y * 2 ^ k) = x + y * 2 ^ k"
proof -
  have e: "x OR y * 2 ^ k = x + y * 2 ^ k"
    using low_or_shifted[OF assms(1,2), of y] by (simp add: push_bit_eq_mult)
  have "0 \<le> y * 2 ^ k" using assms(3) by simp
  then have lo: "- 2147483648 \<le> x + y * 2 ^ k" using assms(1) by linarith
  have hi: "x + y * 2 ^ k < 2147483648" using assms(4) by simp
  have "js_or x (y * 2 ^ k) = sint (word_of_int (x OR y * 2 ^ k) :: 32 word)"
    by (rule js_or_int)
  then have "js_or x (y * 2 ^ k) = sint (word_of_int (x + y * 2 ^ k) :: 32 word)"
    by (simp only: e)
  then show ?thesis by (simp only: sint_of_int_32[OF lo hi])
qed

lemma js_shl_small:
  assumes "0 \<le> b" "b * 2 ^ k < 2 ^ 31" "k < 32"
  shows "js_shl b (int k) = b * 2 ^ k"
proof -
  have "0 \<le> b * 2 ^ k" using assms(1) by simp
  then have lo: "- 2147483648 \<le> b * 2 ^ k" by linarith
  have hi: "b * 2 ^ k < 2147483648" using assms(2) by simp
  have m: "nat (int k mod 32) = k" using assms(3) by simp
  have "js_shl b (int k) = sint (word_of_int (b * 2 ^ k) :: 32 word)"
    unfolding js_shl_def m by (simp add: push_bit_eq_mult)
  then show ?thesis by (simp only: sint_of_int_32[OF lo hi])
qed

lemma bit7_iff:
  assumes "0 \<le> b" "b < 256"
  shows "bit b 7 \<longleftrightarrow> 128 \<le> (b::int)"
proof -
  have "b div 128 = 0 \<or> b div 128 = 1" using assms by auto
  moreover have "b div 128 = 0 \<longleftrightarrow> b < 128" using assms by auto
  ultimately show ?thesis by (auto simp: bit_iff_odd)
qed

lemma js_and_0x80:
  assumes "0 \<le> b" "b < 256"
  shows "js_and b 0x80 = 0 \<longleftrightarrow> b < 128"
proof -
  have p: "0 \<le> b AND 128" using assms by simp
  have q: "b AND 128 \<le> 128" by (rule AND_upper2') simp_all
  have r: "- 2147483648 \<le> b AND 128" "b AND 128 < 2147483648"
    using p q by linarith+
  have "b AND 128 = 0 \<longleftrightarrow> \<not> bit b 7"
    using and_exp_eq_0_iff_not_bit[of b 7] by simp
  then have "b AND 128 = 0 \<longleftrightarrow> b < 128" using bit7_iff[OF assms] by auto
  moreover have "js_and b 0x80 = b AND 128"
    by (simp only: js_and_int sint_of_int_32[OF r])
  ultimately show ?thesis by simp
qed

lemma js_or_0x80:
  assumes "0 \<le> b" "b < 128"
  shows "js_or b 0x80 = b + 128"
  using js_or_shifted[of b 7 1] assms by simp

lemma js_and_0x7f:
  assumes "0 \<le> b" "b < 128"
  shows "js_and (b + 128) 0x7f = b"
proof -
  have "(b + 128) AND 127 = (b + 128) mod 128"
    using take_bit_eq_mask[of 7 "b + 128"] by (simp add: take_bit_eq_mod mask_eq_exp_minus_1)
  also have "\<dots> = b" using assms by simp
  finally have e: "(b + 128) AND 127 = b" .
  have r: "- 2147483648 \<le> b" "b < 2147483648" using assms by simp_all
  have "js_and (b + 128) 0x7f = sint (word_of_int ((b + 128) AND 127) :: 32 word)"
    by (rule js_and_int)
  then show ?thesis by (simp only: e sint_of_int_32[OF r])
qed


lemma magnitude_bytes_0 [simp]: "magnitude_bytes 0 = []"
  by (simp add: magnitude_bytes.simps)

lemma magnitude_bytes_eq_Nil [simp]: "magnitude_bytes n = [] \<longleftrightarrow> n = 0"
  by (simp add: magnitude_bytes.simps[of n])

subsection \<open>The loops of encode and decode\<close>

lemma encode_loop_closed:
  "n < 2 ^ 31 \<Longrightarrow> encode_loop (int n) buf = Some (buf @ magnitude_bytes n)"
proof (induction n arbitrary: buf rule: magnitude_bytes.induct)
  case (1 n)
  show ?case
  proof (cases "n = 0")
    case True
    then show ?thesis
      by (subst encode_loop.simps) (simp add: magnitude_bytes.simps)
  next
    case False
    have r: "0 \<le> int n" "int n < 2 ^ 31" using "1.prems" by simp_all
    have d: "n div 256 < 2 ^ 31" using "1.prems" by simp
    have "encode_loop (int n) buf = encode_loop (int (n div 256)) (buf @ [int (n mod 256)])"
      using False by (subst encode_loop.simps) (simp add: js_sar_8[OF r] js_and_0xff[OF r] zdiv_int zmod_int)
    also have "\<dots> = Some ((buf @ [int (n mod 256)]) @ magnitude_bytes (n div 256))"
      by (rule "1.IH"[OF False d])
    also have "\<dots> = Some (buf @ magnitude_bytes n)"
      using False by (subst (2) magnitude_bytes.simps) simp
    finally show ?thesis .
  qed
qed

lemma magnitude_bytes_range: "b \<in> set (magnitude_bytes n) \<Longrightarrow> 0 \<le> b \<and> b < 256"
proof (induction n rule: magnitude_bytes.induct)
  case (1 n)
  then show ?case
    by (cases "n = 0") (auto simp: magnitude_bytes.simps[of n])
qed

lemma le_value_magnitude_bytes: "le_value (magnitude_bytes n) = int n"
proof (induction n rule: magnitude_bytes.induct)
  case (1 n)
  show ?case
  proof (cases "n = 0")
    case True
    then show ?thesis by (simp add: magnitude_bytes.simps)
  next
    case False
    have "int (n mod 256) + 256 * int (n div 256) = int n"
      by (metis mod_mult_div_eq of_nat_add of_nat_mult of_nat_numeral)
    with False 1 show ?thesis by (simp add: magnitude_bytes.simps[of n])
  qed
qed

lemma last_magnitude_bytes: "n \<noteq> 0 \<Longrightarrow> last (magnitude_bytes n) \<noteq> 0"
proof (induction n rule: magnitude_bytes.induct)
  case (1 n)
  show ?case
  proof (cases "n div 256 = 0")
    case True
    then have "n mod 256 = n" by (simp add: div_eq_0_iff)
    with True "1.prems" show ?thesis
      by (simp add: magnitude_bytes.simps[of n] magnitude_bytes.simps[of 0])
  next
    case False
    then have "magnitude_bytes (n div 256) \<noteq> []" by (simp add: magnitude_bytes.simps[of "n div 256"])
    with False 1 show ?thesis by (simp add: magnitude_bytes.simps[of n])
  qed
qed

lemma length_magnitude_bytes: "n < 256 ^ k \<Longrightarrow> length (magnitude_bytes n) \<le> k"
proof (induction n arbitrary: k rule: magnitude_bytes.induct)
  case (1 n)
  show ?case
  proof (cases "n = 0")
    case True
    then show ?thesis by simp
  next
    case False
    then obtain j where k: "k = Suc j" using "1.prems" by (cases k) auto
    then have "n div 256 < 256 ^ j" using "1.prems"
      by (simp add: less_mult_imp_div_less mult.commute)
    from "1.IH"[OF False this] False k show ?thesis by (simp add: magnitude_bytes.simps[of n])
  qed
qed


lemma le_value_nonneg: "\<forall>b \<in> set bs. 0 \<le> b \<Longrightarrow> 0 \<le> le_value bs"
  by (induction bs) auto

lemma le_value_append: "le_value (xs @ ys) = le_value xs + 256 ^ length xs * le_value ys"
  by (induction xs) (auto simp: algebra_simps)

lemma decode_loop_closed:
  assumes "\<forall>b \<in> set bs. 0 \<le> b \<and> b < 256"
      and "0 \<le> n" and "n < 256 ^ i"
      and "i + length bs \<le> 4"
      and "n + le_value bs * 256 ^ i < 2 ^ 31"
  shows "decode_loop i bs n = n + le_value bs * 256 ^ i"
  using assms
proof (induction bs arbitrary: i n)
  case Nil
  then show ?case by simp
next
  case (Cons b bs)
  have b: "0 \<le> b" "b < 256" using Cons.prems(1) by simp_all
  have rest: "\<forall>b \<in> set bs. 0 \<le> b \<and> b < 256" using Cons.prems(1) by simp
  have v: "0 \<le> le_value bs" using rest by (simp add: le_value_nonneg)
  have i: "8 * i < 32" using Cons.prems(4) by simp
  have p: "(256::int) ^ i = 2 ^ (8 * i)" by (simp add: power_mult)
  have total: "n + b * 256 ^ i + le_value bs * 256 ^ Suc i < 2 ^ 31"
    using Cons.prems(5) by (simp add: algebra_simps)
  have "0 \<le> le_value bs * 256 ^ Suc i" using v by simp
  with total have part: "n + b * 256 ^ i < 2 ^ 31" by linarith
  with Cons.prems(2) have shifted: "b * 2 ^ (8 * i) < 2 ^ 31" by (simp add: p)
  have shl: "js_shl b (int i * 8) = b * 2 ^ (8 * i)"
    using js_shl_small[OF b(1) shifted i] by (simp add: mult.commute)
  have or: "js_or n (b * 2 ^ (8 * i)) = n + b * 2 ^ (8 * i)"
    using Cons.prems(2,3) b(1) part by (intro js_or_shifted) (simp_all add: p)
  let ?n = "n + b * 256 ^ i"
  have n0: "0 \<le> ?n" using Cons.prems(2) b(1) by simp
  have "b * 256 ^ i \<le> 255 * 256 ^ i" using b(2) by (intro mult_right_mono) simp_all
  with Cons.prems(3) have "?n < 256 ^ i + 255 * 256 ^ i" by linarith
  then have n1: "?n < 256 ^ Suc i" by simp
  have len: "Suc i + length bs \<le> 4" using Cons.prems(4) by simp
  have "decode_loop i (b # bs) n = decode_loop (Suc i) bs ?n"
    by (simp add: shl or p)
  also have "\<dots> = ?n + le_value bs * 256 ^ Suc i"
    using total by (intro Cons.IH[OF rest n0 n1 len]) simp
  finally show ?case by (simp add: algebra_simps)
qed

lemma uint_byte: "0 \<le> b \<Longrightarrow> b < 256 \<Longrightarrow> uint (word_of_int b :: 8 word) = b"
  by (simp add: uint_word_of_int)

lemma map_uint_bytes:
  "\<forall>b \<in> set bs. 0 \<le> b \<and> b < 256 \<Longrightarrow> map uint (map word_of_int bs :: 8 word list) = bs"
  by (induction bs) (simp_all add: uint_byte)

lemma Int_decode_via_uint:
  assumes "map uint ws = f @ [t]"
  shows "Int_decode ws =
           (if js_and t 0x80 \<noteq> 0
            then - decode_loop 0 (f @ [uint (word_of_int (js_and t 0x7f) :: 8 word)]) 0
            else decode_loop 0 (f @ [t]) 0)"
proof -
  have ne: "ws \<noteq> []" using assms by auto
  then have ws: "ws = butlast ws @ [last ws]" by simp
  have "map uint (butlast ws) @ [uint (last ws)] = f @ [t]"
    using assms by (subst (asm) ws) simp
  then have f: "map uint (butlast ws) = f" and t: "uint (last ws) = t" by simp_all
  show ?thesis
    using ne assms by (simp add: Int_decode_def Let_def f t)
qed

lemma Int_decode_int_bytes:
  assumes range: "\<forall>b \<in> set f. 0 \<le> b \<and> b < 256"
      and l: "0 \<le> l" "l < 128"
      and len: "length f \<le> 3"
      and bound: "le_value (f @ [l]) < 2 ^ 31"
  shows "Int_decode (map word_of_int (f @ [l])) = le_value (f @ [l])"
    and "Int_decode (map word_of_int (f @ [l + 128])) = - le_value (f @ [l])"
proof -
  have all: "\<forall>b \<in> set (f @ [l]). 0 \<le> b \<and> b < 256" using range l by simp
  have all': "\<forall>b \<in> set (f @ [l + 128]). 0 \<le> b \<and> b < 256" using range l by simp
  have dec: "decode_loop 0 (f @ [l]) 0 = le_value (f @ [l])"
    using decode_loop_closed[OF all, of 0 0] len bound by simp
  have pos: "js_and l 0x80 = 0" using js_and_0x80[of l] l by simp
  have neg: "js_and (l + 128) 0x80 \<noteq> 0" using js_and_0x80[of "l + 128"] l by simp
  have mask: "js_and (l + 128) 0x7f = l" using js_and_0x7f[of l] l by simp
  have ul: "uint (word_of_int l :: 8 word) = l" using l by (simp add: uint_byte)
  show "Int_decode (map word_of_int (f @ [l])) = le_value (f @ [l])"
    by (simp only: Int_decode_via_uint[OF map_uint_bytes[OF all]] pos dec if_False simp_thms)
  show "Int_decode (map word_of_int (f @ [l + 128])) = - le_value (f @ [l])"
    by (simp only: Int_decode_via_uint[OF map_uint_bytes[OF all']] neg mask ul dec if_True simp_thms)
qed


lemma Int_encode_closed:
  assumes "\<bar>n\<bar> < 2 ^ 31"
  shows "Int_encode n =
     (let buf = magnitude_bytes (nat \<bar>n\<bar>) in
      Some (map word_of_int
        (if js_and (if buf = [] then 0 else last buf) 0x80 \<noteq> 0
         then buf @ [if n < 0 then 0x80 else 0x00]
         else if n < 0
           then (if buf = [] then buf else butlast buf @ [js_or (last buf) 0x80])
           else buf)))"
proof -
  have "nat \<bar>n\<bar> < 2 ^ 31" using assms by (simp add: nat_less_iff)
  from encode_loop_closed[OF this, of "[]"]
  have "encode_loop \<bar>n\<bar> [] = Some (magnitude_bytes (nat \<bar>n\<bar>))" by simp
  then show ?thesis by (simp add: Int_encode_def Let_def)
qed

text \<open>
  Claim C8. For every integer \<open>n\<close> with \<open>|n| \<le> 0x7fffffff\<close>, \<open>Int.encode(n)\<close> returns
  and \<open>Int.decode\<close> of the result is \<open>n\<close>.
\<close>

theorem Int_decode_encode:
  assumes "\<bar>n\<bar> \<le> 0x7fffffff"
  shows "\<exists>buf. Int_encode n = Some buf \<and> Int_decode buf = n"
proof (cases "n = 0")
  case True
  then show ?thesis by (simp add: Int_encode_closed js_and_def Int_decode_def)
next
  case False
  define m where "m = nat \<bar>n\<bar>"
  define bs where "bs = magnitude_bytes m"
  have m: "int m = \<bar>n\<bar>" "m \<noteq> 0" using False by (simp_all add: m_def)
  have small: "\<bar>n\<bar> < 2 ^ 31" using assms by simp
  have m31: "m < 2 ^ 31" using small by (simp add: m_def nat_less_iff)
  have ne: "bs \<noteq> []" using m(2) by (simp add: bs_def)
  define f l where "f = butlast bs" and "l = last bs"
  have bs: "bs = f @ [l]" using ne by (simp add: f_def l_def)
  have range: "\<forall>b \<in> set bs. 0 \<le> b \<and> b < 256"
    using magnitude_bytes_range by (auto simp: bs_def)
  then have rf: "\<forall>b \<in> set f. 0 \<le> b \<and> b < 256" and rl: "0 \<le> l" "l < 256"
    by (simp_all add: bs)
  have l0: "l \<noteq> 0" using last_magnitude_bytes[OF m(2)] by (simp add: l_def bs_def)
  have val: "le_value bs = \<bar>n\<bar>" using le_value_magnitude_bytes[of m] m(1) by (simp add: bs_def)
  have "m < 256 ^ 4" using m31 by simp
  then have len4: "length bs \<le> 4" unfolding bs_def by (rule length_magnitude_bytes)
  have enc: "Int_encode n =
      Some (map word_of_int
        (if js_and l 0x80 \<noteq> 0 then bs @ [if n < 0 then 0x80 else 0x00]
         else if n < 0 then f @ [js_or l 0x80] else bs))"
    using ne by (simp add: Int_encode_closed[OF small] Let_def m_def[symmetric] bs_def[symmetric]
        f_def l_def)
  show ?thesis
  proof (cases "l < 128")
    case True
    have lenf: "length f \<le> 3" using len4 by (simp add: bs)
    have bound: "le_value (f @ [l]) < 2 ^ 31" using val small by (simp add: bs)
    note dec = Int_decode_int_bytes[OF rf rl(1) True lenf bound]
    have z: "js_and l 0x80 = 0" using js_and_0x80[OF rl] True by simp
    have o: "js_or l 0x80 = l + 128" using js_or_0x80[OF rl(1) True] .
    show ?thesis
    proof (cases "n < 0")
      case True
      then show ?thesis using dec(2) val by (simp add: enc z o bs)
    next
      case False
      then show ?thesis using dec(1) val by (simp add: enc z bs)
    qed
  next
    case False
    then have hi: "128 \<le> l" by simp
    have nz: "js_and l 0x80 \<noteq> 0" using js_and_0x80[OF rl] False by simp
    have e: "le_value bs = le_value f + 256 ^ length f * l" by (simp add: bs le_value_append)
    have nn: "0 \<le> le_value f" using rf by (intro le_value_nonneg) simp
    have "(256::int) ^ length f * 128 \<le> 256 ^ length f * l"
      using hi by (intro mult_left_mono) simp_all
    with e nn have "256 ^ length f * 128 \<le> le_value bs" by linarith
    with val small have p: "(256::int) ^ length f * 128 < 2 ^ 31" by linarith
    have lenf: "length f \<le> 2"
    proof (rule ccontr)
      assume "\<not> length f \<le> 2"
      then have "3 \<le> length f" by simp
      then have "(256::int) ^ 3 \<le> 256 ^ length f" by (intro power_increasing) simp_all
      with p show False by simp
    qed
    then have lenb: "length bs \<le> 3" by (simp add: bs)
    have bound: "le_value (bs @ [0]) < 2 ^ 31" using val small by (simp add: le_value_append)
    have z0: "(0::int) \<le> 0" "(0::int) < 128" by simp_all
    note dec = Int_decode_int_bytes[OF range z0 lenb bound]
    have v0: "le_value (bs @ [0]) = \<bar>n\<bar>" using val by (simp add: le_value_append)
    show ?thesis
    proof (cases "n < 0")
      case True
      then show ?thesis using dec(2) v0 by (simp add: enc nz)
    next
      case False
      then show ?thesis using dec(1) v0 by (simp add: enc nz)
    qed
  qed
qed

theorem Int_decode_encode_witness:
  "\<bar>- 0x7fffffff\<bar> \<le> (0x7fffffff :: int)
   \<and> (\<exists>buf. Int_encode (- 0x7fffffff) = Some buf \<and> Int_decode buf = - 0x7fffffff)"
proof -
  have h: "\<bar>- 0x7fffffff\<bar> \<le> (0x7fffffff :: int)" by simp
  show ?thesis using h Int_decode_encode[OF h] by blast
qed

subsection \<open>OP_CHECKMULTISIG\<close>

lemma Int_encode_returns: "\<bar>n\<bar> < 2 ^ 31 \<Longrightarrow> \<exists>buf. Int_encode n = Some buf"
  by (simp add: Int_encode_closed Let_def)

lemma numFromStack_concrete:
  "stack st = rest @ [Bytes b] \<Longrightarrow>
   numFromStack op st =
     Inr (if length b \<le> 4 then Some (Int_decode b) else None, st\<lparr>stack := rest\<rparr>)"
  by (simp add: numFromStack_def takeElements_Suc_0)

text \<open>
  Claim C5. With \<open>cs.all_true()\<close>, \<open>OP_CHECKMULTISIG\<close> fails
  \<open>TAPSCRIPT_CHECKMULTISIG\<close> under \<open>SEGWITV1\<close> and leaves the stack as it is. Under the
  other versions, with a concrete key count on top of the stack: a buffer of more than 4
  bytes fails \<open>NUM_OVERFLOW\<close>, a count \<open>k\<close> outside \<open>[0, 20]\<close> fails \<open>PUBKEY_COUNT\<close>;
  otherwise \<open>k\<close> keys are taken, and with a concrete signature count on top: more than
  4 bytes fails \<open>NUM_OVERFLOW\<close>, a count \<open>s\<close> outside \<open>[0, k]\<close> fails \<open>SIG_COUNT\<close>;
  otherwise \<open>s\<close> signatures and the dummy are taken, the condition
  \<open>OP_EQUAL(dummy, FALSE)\<close> with the error \<open>SIG_NULLDUMMY\<close> is appended, both counts are
  encoded, and \<open>OP_CHECKMULTISIG(sigs, s, pks, k)\<close> is pushed.
\<close>

theorem OP_CHECKMULTISIG_step:
  assumes "all_true (cs st)"
      and "script st ! scriptOffset st = Op OP_CHECKMULTISIG"
  shows
   "(version st = SEGWITV1 \<longrightarrow>
       step st = Returned SCRIPT_ERR_TAPSCRIPT_CHECKMULTISIG
                   (st\<lparr>scriptOffset := scriptOffset st + 1\<rparr>))
    \<and> (version st \<noteq> SEGWITV1 \<longrightarrow> (\<forall>rest kb. stack st = rest @ [Bytes kb] \<longrightarrow>
       (let st1 = st\<lparr>scriptOffset := scriptOffset st + 1, stack := rest\<rparr>;
            k = Int_decode kb
        in (4 < length kb \<longrightarrow> step st = Returned SCRIPT_ERR_NUM_OVERFLOW st1)
         \<and> (length kb \<le> 4 \<and> (k < 0 \<or> 20 < k) \<longrightarrow>
               step st = Returned SCRIPT_ERR_PUBKEY_COUNT st1)
         \<and> (length kb \<le> 4 \<and> 0 \<le> k \<and> k \<le> 20 \<longrightarrow>
              (let pks = fst (takeElements (nat k) st1);
                   st2 = snd (takeElements (nat k) st1)
               in \<forall>rest2 sb. stack st2 = rest2 @ [Bytes sb] \<longrightarrow>
                 (let st3 = st2\<lparr>stack := rest2\<rparr>;
                      s = Int_decode sb
                  in (4 < length sb \<longrightarrow> step st = Returned SCRIPT_ERR_NUM_OVERFLOW st3)
                   \<and> (length sb \<le> 4 \<and> (s < 0 \<or> k < s) \<longrightarrow>
                         step st = Returned SCRIPT_ERR_SIG_COUNT st3)
                   \<and> (length sb \<le> 4 \<and> 0 \<le> s \<and> s \<le> k \<longrightarrow>
                        (let sigs = fst (takeElements (nat s) st3);
                             st4 = snd (takeElements (nat s) st3);
                             dummy = fst (takeElements 1 st4) ! 0;
                             st5 = snd (takeElements 1 st4)
                         in \<exists>es ek. Int_encode s = Some es \<and> Int_encode k = Some ek \<and>
                              step st =
                                Executed
                                  (st5\<lparr>spendingConditions := spendingConditions st @
                                          [App OP_EQUAL [dummy, Bytes Bool_FALSE]
                                             (Some SCRIPT_ERR_SIG_NULLDUMMY)],
                                        stack := stack st5 @
                                          [App OP_CHECKMULTISIG
                                             (sigs @ [Bytes es] @ pks @ [Bytes ek]) None]\<rparr>)
                                  None))))))))"
proof -
  let ?st0 = "st\<lparr>scriptOffset := Suc (scriptOffset st)\<rparr>"
  have s: "step st = op_checkmultisig OP_CHECKMULTISIG ?st0"
    using assms by (simp add: step_def exec_opcode_def Let_def)
  show ?thesis
  proof (intro conjI impI allI)
    assume "version st = SEGWITV1"
    then show "step st = Returned SCRIPT_ERR_TAPSCRIPT_CHECKMULTISIG
                         (st\<lparr>scriptOffset := scriptOffset st + 1\<rparr>)"
      by (simp add: s op_checkmultisig_def)
  next
    fix rest kb
    assume v: "version st \<noteq> SEGWITV1" and st: "stack st = rest @ [Bytes kb]"
    let ?st1 = "st\<lparr>scriptOffset := Suc (scriptOffset st), stack := rest\<rparr>"
    have n1: "numFromStack OP_CHECKMULTISIG ?st0 =
                Inr (if length kb \<le> 4 then Some (Int_decode kb) else None, ?st1)"
      using numFromStack_concrete[of ?st0 rest kb] st by simp
    have "let st1 = ?st1; k = Int_decode kb
        in (4 < length kb \<longrightarrow> step st = Returned SCRIPT_ERR_NUM_OVERFLOW st1)
         \<and> (length kb \<le> 4 \<and> (k < 0 \<or> 20 < k) \<longrightarrow>
               step st = Returned SCRIPT_ERR_PUBKEY_COUNT st1)
         \<and> (length kb \<le> 4 \<and> 0 \<le> k \<and> k \<le> 20 \<longrightarrow>
              (let pks = fst (takeElements (nat k) st1);
                   st2 = snd (takeElements (nat k) st1)
               in \<forall>rest2 sb. stack st2 = rest2 @ [Bytes sb] \<longrightarrow>
                 (let st3 = st2\<lparr>stack := rest2\<rparr>;
                      s = Int_decode sb
                  in (4 < length sb \<longrightarrow> step st = Returned SCRIPT_ERR_NUM_OVERFLOW st3)
                   \<and> (length sb \<le> 4 \<and> (s < 0 \<or> k < s) \<longrightarrow>
                         step st = Returned SCRIPT_ERR_SIG_COUNT st3)
                   \<and> (length sb \<le> 4 \<and> 0 \<le> s \<and> s \<le> k \<longrightarrow>
                        (let sigs = fst (takeElements (nat s) st3);
                             st4 = snd (takeElements (nat s) st3);
                             dummy = fst (takeElements 1 st4) ! 0;
                             st5 = snd (takeElements 1 st4)
                         in \<exists>es ek. Int_encode s = Some es \<and> Int_encode k = Some ek \<and>
                              step st =
                                Executed
                                  (st5\<lparr>spendingConditions := spendingConditions st @
                                          [App OP_EQUAL [dummy, Bytes Bool_FALSE]
                                             (Some SCRIPT_ERR_SIG_NULLDUMMY)],
                                        stack := stack st5 @
                                          [App OP_CHECKMULTISIG
                                             (sigs @ [Bytes es] @ pks @ [Bytes ek]) None]\<rparr>)
                                  None)))))"
      unfolding Let_def
    proof (intro conjI impI allI; (elim conjE)?)
      assume "4 < length kb"
      then show "step st = Returned SCRIPT_ERR_NUM_OVERFLOW ?st1"
        using v by (simp add: s op_checkmultisig_def n1)
    next
      assume "length kb \<le> 4" "Int_decode kb < 0 \<or> 20 < Int_decode kb"
      then show "step st = Returned SCRIPT_ERR_PUBKEY_COUNT ?st1"
        using v by (auto simp: s op_checkmultisig_def n1)
    next
      fix rest2 sb
      let ?k = "Int_decode kb"
      let ?pks = "fst (takeElements (nat ?k) ?st1)"
      let ?st2 = "snd (takeElements (nat ?k) ?st1)"
      let ?st3 = "?st2\<lparr>stack := rest2\<rparr>"
      let ?s = "Int_decode sb"
      assume k: "length kb \<le> 4" "0 \<le> ?k" "?k \<le> 20"
        and st2: "stack ?st2 = rest2 @ [Bytes sb]"
      have n2: "numFromStack OP_CHECKMULTISIG ?st2 =
                  Inr (if length sb \<le> 4 then Some ?s else None, ?st3)"
        using numFromStack_concrete[OF st2] by simp
      have upto: "step st =
          (case (if length sb \<le> 4 then Some ?s else None) of
             None \<Rightarrow> Returned SCRIPT_ERR_NUM_OVERFLOW ?st3
           | Some s \<Rightarrow>
               if s < 0 \<or> s > ?k then Returned SCRIPT_ERR_SIG_COUNT ?st3
               else case takeElements (nat s) ?st3 of (sigs, st4) \<Rightarrow>
                 (case takeElements 1 st4 of (d, st5) \<Rightarrow>
                    let dummy = d ! 0;
                        st6 = push_condition
                                (App OP_EQUAL [dummy, Bytes Bool_FALSE]
                                   (Some SCRIPT_ERR_SIG_NULLDUMMY)) st5
                    in case Int_encode s of
                      None \<Rightarrow> Hung
                    | Some es \<Rightarrow>
                        (case Int_encode ?k of
                           None \<Rightarrow> Hung
                         | Some ek \<Rightarrow>
                             Executed (push_stack
                                   [App OP_CHECKMULTISIG
                                      (sigs @ [Bytes es] @ ?pks @ [Bytes ek]) None] st6) None)))"
        using v k by (simp add: s op_checkmultisig_def n1 n2 split_beta Let_def
            split: option.splits)
      {
        assume "4 < length sb"
        then show "step st = Returned SCRIPT_ERR_NUM_OVERFLOW ?st3"
          by (simp add: upto)
      next
        assume "length sb \<le> 4" "?s < 0 \<or> ?k < ?s"
        then show "step st = Returned SCRIPT_ERR_SIG_COUNT ?st3"
          by (auto simp: upto)
      next
        assume sr: "length sb \<le> 4" "0 \<le> ?s" "?s \<le> ?k"
        let ?sigs = "fst (takeElements (nat ?s) ?st3)"
        let ?st4 = "snd (takeElements (nat ?s) ?st3)"
        let ?dummy = "fst (takeElements 1 ?st4) ! 0"
        let ?st5 = "snd (takeElements 1 ?st4)"
        obtain es where es: "Int_encode ?s = Some es"
          using Int_encode_returns[of ?s] sr k by auto
        obtain ek where ek: "Int_encode ?k = Some ek"
          using Int_encode_returns[of ?k] k by auto
        have "step st =
                Executed
                  (?st5\<lparr>spendingConditions := spendingConditions st @
                          [App OP_EQUAL [?dummy, Bytes Bool_FALSE]
                             (Some SCRIPT_ERR_SIG_NULLDUMMY)],
                        stack := stack ?st5 @
                          [App OP_CHECKMULTISIG
                             (?sigs @ [Bytes es] @ ?pks @ [Bytes ek]) None]\<rparr>)
                  None"
          using sr by (simp add: upto es ek split_beta Let_def push_stack_def push_condition_def)
        with es ek show "\<exists>es ek. Int_encode ?s = Some es \<and> Int_encode ?k = Some ek \<and>
                step st =
                Executed
                  (?st5\<lparr>spendingConditions := spendingConditions st @
                          [App OP_EQUAL [?dummy, Bytes Bool_FALSE]
                             (Some SCRIPT_ERR_SIG_NULLDUMMY)],
                        stack := stack ?st5 @
                          [App OP_CHECKMULTISIG
                             (?sigs @ [Bytes es] @ ?pks @ [Bytes ek]) None]\<rparr>)
                  None"
          by blast
      }
    qed
    then show "let st1 = st\<lparr>scriptOffset := scriptOffset st + 1, stack := rest\<rparr>;
            k = Int_decode kb
        in (4 < length kb \<longrightarrow> step st = Returned SCRIPT_ERR_NUM_OVERFLOW st1)
         \<and> (length kb \<le> 4 \<and> (k < 0 \<or> 20 < k) \<longrightarrow>
               step st = Returned SCRIPT_ERR_PUBKEY_COUNT st1)
         \<and> (length kb \<le> 4 \<and> 0 \<le> k \<and> k \<le> 20 \<longrightarrow>
              (let pks = fst (takeElements (nat k) st1);
                   st2 = snd (takeElements (nat k) st1)
               in \<forall>rest2 sb. stack st2 = rest2 @ [Bytes sb] \<longrightarrow>
                 (let st3 = st2\<lparr>stack := rest2\<rparr>;
                      s = Int_decode sb
                  in (4 < length sb \<longrightarrow> step st = Returned SCRIPT_ERR_NUM_OVERFLOW st3)
                   \<and> (length sb \<le> 4 \<and> (s < 0 \<or> k < s) \<longrightarrow>
                         step st = Returned SCRIPT_ERR_SIG_COUNT st3)
                   \<and> (length sb \<le> 4 \<and> 0 \<le> s \<and> s \<le> k \<longrightarrow>
                        (let sigs = fst (takeElements (nat s) st3);
                             st4 = snd (takeElements (nat s) st3);
                             dummy = fst (takeElements 1 st4) ! 0;
                             st5 = snd (takeElements 1 st4)
                         in \<exists>es ek. Int_encode s = Some es \<and> Int_encode k = Some ek \<and>
                              step st =
                                Executed
                                  (st5\<lparr>spendingConditions := spendingConditions st @
                                          [App OP_EQUAL [dummy, Bytes Bool_FALSE]
                                             (Some SCRIPT_ERR_SIG_NULLDUMMY)],
                                        stack := stack st5 @
                                          [App OP_CHECKMULTISIG
                                             (sigs @ [Bytes es] @ pks @ [Bytes ek]) None]\<rparr>)
                                  None)))))"
      by simp
  qed
qed


lemma Int_decode_small: "0 \<le> l \<Longrightarrow> l < 128 \<Longrightarrow> Int_decode [word_of_int l] = l"
  using Int_decode_int_bytes(1)[of "[]" l] by simp

lemma takeElements_closed:
  "takeElements n st =
     (fresh_vars (varCounter st) (n - length (stack st))
        @ drop (length (stack st) - n) (stack st),
      st\<lparr>stack := take (length (stack st) - n) (stack st),
         varCounter := varCounter st + (n - length (stack st))\<rparr>)"
  by (simp add: takeElements_def take_loop_closed)

theorem OP_CHECKMULTISIG_step_witness:
  "step (multisig_state SEGWITV1) =
     Returned SCRIPT_ERR_TAPSCRIPT_CHECKMULTISIG ((multisig_state SEGWITV1)\<lparr>scriptOffset := 1\<rparr>)
   \<and> (\<exists>es ek. Int_encode 2 = Some es \<and> Int_encode 3 = Some ek \<and>
         step (multisig_state LEGACY) =
           Executed
             ((multisig_state LEGACY)
                \<lparr>scriptOffset := 1,
                 stack := [App OP_CHECKMULTISIG
                             [Bytes [7], Bytes [8], Bytes es,
                              Bytes [9], Bytes [10], Bytes [11], Bytes ek] None],
                 spendingConditions :=
                   [App OP_EQUAL [Bytes [], Bytes Bool_FALSE] (Some SCRIPT_ERR_SIG_NULLDUMMY)]\<rparr>)
             None)"
proof -
  have a: "\<And>v. all_true (cs (multisig_state v))"
    and b: "\<And>v. script (multisig_state v) ! scriptOffset (multisig_state v) = Op OP_CHECKMULTISIG"
    by (simp_all add: multisig_state_def new_ScriptAnalyzer_def new_ConditionStack_def all_true_def)
  have d3: "Int_decode [3] = 3" and d2: "Int_decode [2] = 2"
    using Int_decode_small[of 3] Int_decode_small[of 2] by simp_all
  have 1: "step (multisig_state SEGWITV1) =
     Returned SCRIPT_ERR_TAPSCRIPT_CHECKMULTISIG ((multisig_state SEGWITV1)\<lparr>scriptOffset := 1\<rparr>)"
    using OP_CHECKMULTISIG_step[OF a b, of SEGWITV1]
    by (simp add: multisig_state_def new_ScriptAnalyzer_def)
  have k: "stack (multisig_state LEGACY) =
             [Bytes [], Bytes [7], Bytes [8], Bytes [2], Bytes [9], Bytes [10], Bytes [11]]
               @ [Bytes [3]]"
    by (simp add: multisig_state_def)
  have v: "version (multisig_state LEGACY) \<noteq> SEGWITV1"
    by (simp add: multisig_state_def new_ScriptAnalyzer_def)
  note step1 = OP_CHECKMULTISIG_step[OF a b, of LEGACY, THEN conjunct2, rule_format, OF v k]
  have s: "stack (snd (takeElements (nat 3)
                   ((multisig_state LEGACY)
                      \<lparr>scriptOffset := scriptOffset (multisig_state LEGACY) + 1,
                       stack := [Bytes [], Bytes [7], Bytes [8], Bytes [2],
                                 Bytes [9], Bytes [10], Bytes [11]]\<rparr>)))
           = [Bytes [], Bytes [7], Bytes [8]] @ [Bytes [2]]"
    by (simp add: takeElements_closed)
  have pre3: "length [3::8 word] \<le> 4 \<and> (0::int) \<le> 3 \<and> (3::int) \<le> 20" by simp
  note step2 = step1[unfolded Let_def d3, THEN conjunct2, THEN conjunct2, THEN mp, OF pre3,
      rule_format, OF s]
  have pre2: "length [2::8 word] \<le> 4 \<and> (0::int) \<le> 2 \<and> (2::int) \<le> 3" by simp
  note step3 = step2[unfolded d2, THEN conjunct2, THEN conjunct2, THEN mp, OF pre2]
  from step3 have step2:
    "\<exists>es ek. Int_encode 2 = Some es \<and> Int_encode 3 = Some ek \<and>
         step (multisig_state LEGACY) =
           Executed
             ((multisig_state LEGACY)
                \<lparr>scriptOffset := 1,
                 stack := [App OP_CHECKMULTISIG
                             [Bytes [7], Bytes [8], Bytes es,
                              Bytes [9], Bytes [10], Bytes [11], Bytes ek] None],
                 spendingConditions :=
                   [App OP_EQUAL [Bytes [], Bytes Bool_FALSE] (Some SCRIPT_ERR_SIG_NULLDUMMY)]\<rparr>)
             None"
    by (simp add: takeElements_closed multisig_state_def new_ScriptAnalyzer_def)
  from 1 step2 show ?thesis by simp
qed

section \<open>The condition stack inside analyze\<close>

lemma numFromStack_throws:
  "numFromStack op st = Inl t \<Longrightarrow> t = Throw_numFromStack op"
  by (auto simp: numFromStack_def split_beta split: expr.splits)

lemma numFromStack_cs:
  "numFromStack op st = Inr (r, st1) \<Longrightarrow> cs st1 = cs st"
  using numFromStack_fields by blast

lemma verify_or_ok: "cs_ok st \<Longrightarrow> step_ok (verify_or e st)"
  by (simp add: verify_or_def split_beta cs_ok_def)

lemma op_if_notif_ok: "cs_ok st \<Longrightarrow> step_ok (op_if_notif op fExec st)"
  by (simp add: op_if_notif_def split_beta Let_def cs_ok_def push_back_def)

lemma op_pick_roll_ok: "cs_ok st \<Longrightarrow> step_ok (op_pick_roll op st)"
  by (auto simp: op_pick_roll_def split_beta Let_def cs_ok_def
      split: sum.splits option.splits if_splits
      dest!: numFromStack_cs numFromStack_throws)

lemma op_checkmultisig_ok: "cs_ok st \<Longrightarrow> step_ok (op_checkmultisig op st)"
  by (auto simp: op_checkmultisig_def verify_or_def split_beta Let_def cs_ok_def
      split: sum.splits option.splits if_splits
      dest!: numFromStack_cs numFromStack_throws)

lemma toggle_top_nonempty:
  assumes "0 \<le> m_stack_size c" "\<not> empty_cs c"
  shows "\<exists>c'. toggle_top c = Inr c' \<and> 0 \<le> m_stack_size c'"
proof -
  have "0 < m_stack_size c" using assms by (simp add: empty_cs_def)
  then show ?thesis by (simp add: toggle_top_def)
qed

lemma pop_back_nonempty:
  assumes "0 \<le> m_stack_size c" "\<not> empty_cs c"
  shows "\<exists>c'. pop_back c = Inr c' \<and> 0 \<le> m_stack_size c'"
proof -
  have "0 < m_stack_size c" using assms by (simp add: empty_cs_def)
  then show ?thesis by (simp add: pop_back_def Let_def)
qed

lemma op_else_ok:
  assumes "cs_ok st"
  shows "step_ok (if empty_cs (cs st) then Returned SCRIPT_ERR_UNBALANCED_CONDITIONAL st
                  else case toggle_top (cs st) of
                    Inl t \<Rightarrow> Threw t
                  | Inr c \<Rightarrow> Executed (st\<lparr>cs := c\<rparr>) None)"
proof (cases "empty_cs (cs st)")
  case True
  then show ?thesis using assms by simp
next
  case False
  from assms have "0 \<le> m_stack_size (cs st)" by (simp add: cs_ok_def)
  from toggle_top_nonempty[OF this False] False show ?thesis
    by (auto simp: cs_ok_def)
qed

lemma op_endif_ok:
  assumes "cs_ok st"
  shows "step_ok (if empty_cs (cs st) then Returned SCRIPT_ERR_UNBALANCED_CONDITIONAL st
                  else case pop_back (cs st) of
                    Inl t \<Rightarrow> Threw t
                  | Inr c \<Rightarrow> Executed (st\<lparr>cs := c\<rparr>) None)"
proof (cases "empty_cs (cs st)")
  case True
  then show ?thesis using assms by simp
next
  case False
  from assms have "0 \<le> m_stack_size (cs st)" by (simp add: cs_ok_def)
  from pop_back_nonempty[OF this False] False show ?thesis
    by (auto simp: cs_ok_def)
qed

lemma exec_opcode_ok:
  assumes "cs_ok st"
  shows "step_ok (exec_opcode op fExec st)"
proof -
  have size: "0 \<le> m_stack_size (cs st)" using assms by (simp add: cs_ok_def)
  note sub = op_if_notif_ok[OF assms] op_pick_roll_ok[OF assms] op_checkmultisig_ok[OF assms]
    op_else_ok[OF assms] op_endif_ok[OF assms]
  show ?thesis
    unfolding exec_opcode_def
    by (simp add: sub verify_or_ok size cs_ok_def split_beta Let_def split: option.splits)
qed

lemma step_ok_step:
  assumes "cs_ok st"
  shows "step_ok (step st)"
proof -
  let ?st1 = "st\<lparr>scriptOffset := scriptOffset st + 1\<rparr>"
  have 1: "cs_ok ?st1" using assms by (simp add: cs_ok_def)
  show ?thesis
  proof (cases "script st ! scriptOffset st")
    case (Push b)
    then show ?thesis using assms by (simp add: step_def Let_def cs_ok_def)
  next
    case (Op c)
    then show ?thesis using exec_opcode_ok[OF 1, of c "all_true (cs st)"] 1
      by (simp add: step_def Let_def)
  qed
qed

lemma after_switch_ok: "outcome_ok rest \<Longrightarrow> outcome_ok (after_switch st reg rest)"
  by (cases rest) (simp_all add: after_switch_def outcome_ok_def)

lemma analyze_ok: "cs_ok st \<Longrightarrow> outcome_ok (analyze st)"
proof (induction st rule: analyze.induct)
  case (1 st)
  show ?case
  proof (cases "scriptOffset st < length (script st)")
    case False
    then show ?thesis
      by (subst analyze.simps) (simp add: split_beta outcome_ok_def)
  next
    case True
    have ok: "step_ok (step st)" using "1.prems" by (rule step_ok_step)
    show ?thesis
    proof (cases "step st")
      case (Skipped st1)
      with ok have "cs_ok st1" by simp
      from "1.IH"(1)[OF True Skipped this] show ?thesis
        by (subst analyze.simps) (simp add: True Skipped)
    next
      case (Executed st1 fo)
      show ?thesis
      proof (cases fo)
        case None
        with ok Executed have "cs_ok st1" by simp
        from "1.IH"(2)[OF True Executed None this] show ?thesis
          by (subst analyze.simps) (simp add: True Executed None after_switch_ok)
      next
        case (Some fork)
        with ok Executed have c: "cs_ok st1" "cs_ok fork" by simp_all
        have f: "outcome_ok (analyze fork)"
          by (rule "1.IH"(3)[OF True Executed Some c(2)])
        show ?thesis
        proof (cases "analyze fork")
          case (Done r fork1 bs)
          from "1.IH"(4)[OF True Executed Some Done c(1)] show ?thesis
            by (subst analyze.simps) (simp add: True Executed Some Done after_switch_ok)
        next
          case (Raised t)
          with f show ?thesis
            by (subst analyze.simps) (simp add: True Executed Some outcome_ok_def)
        next
          case Diverged
          then show ?thesis
            by (subst analyze.simps) (simp add: True Executed Some outcome_ok_def)
        qed
      qed
    next
      case (Returned e st1)
      then show ?thesis
        by (subst analyze.simps) (simp add: True outcome_ok_def)
    next
      case (Threw t)
      with ok show ?thesis
        by (subst analyze.simps) (simp add: True outcome_ok_def)
    next
      case Hung
      then show ?thesis
        by (subst analyze.simps) (simp add: True outcome_ok_def)
    qed
  qed
qed

text \<open>
  Claim C9. From a state whose condition stack has a size of at least 0 (every state that
  \<open>new ScriptAnalyzer(script)\<close> and the steps of \<open>analyze\<close> produce), \<open>analyze\<close> never
  throws \<open>'pop_back: stack size <= 0'\<close> or \<open>'toggle_top: stack size <= 0'\<close>:
  \<open>OP_ELSE\<close> and \<open>OP_ENDIF\<close> return \<open>UNBALANCED_CONDITIONAL\<close> on an empty condition
  stack before they call \<open>toggle_top\<close> or \<open>pop_back\<close>.
\<close>

theorem analyze_never_throws_from_ConditionStack:
  assumes "0 \<le> m_stack_size (cs st)"
  shows "analyze st \<noteq> Raised Throw_pop_back \<and> analyze st \<noteq> Raised Throw_toggle_top"
proof -
  have "cs_ok st" using assms by (simp add: cs_ok_def)
  then have "outcome_ok (analyze st)" by (rule analyze_ok)
  then show ?thesis by (simp add: outcome_ok_def)
qed


lemma new_ScriptAnalyzer_size: "0 \<le> m_stack_size (cs (new_ScriptAnalyzer v r scr))"
  by (simp add: new_ScriptAnalyzer_def new_ConditionStack_def)

theorem analyze_never_throws_from_ConditionStack_witness:
  "0 \<le> m_stack_size (cs (new_ScriptAnalyzer LEGACY ALL_RULES [Op OP_0, Op OP_IF, Op OP_ELSE, Op OP_ENDIF, Op OP_ENDIF]))
   \<and> analyze (new_ScriptAnalyzer LEGACY ALL_RULES [Op OP_0, Op OP_IF, Op OP_ELSE, Op OP_ENDIF, Op OP_ENDIF])
       \<noteq> Raised Throw_pop_back
   \<and> analyze (new_ScriptAnalyzer LEGACY ALL_RULES [Op OP_0, Op OP_IF, Op OP_ELSE, Op OP_ENDIF, Op OP_ENDIF])
       \<noteq> Raised Throw_toggle_top"
  using new_ScriptAnalyzer_size[of LEGACY ALL_RULES "[Op OP_0, Op OP_IF, Op OP_ELSE, Op OP_ENDIF, Op OP_ENDIF]"]
    analyze_never_throws_from_ConditionStack
      [OF new_ScriptAnalyzer_size[of LEGACY ALL_RULES "[Op OP_0, Op OP_IF, Op OP_ELSE, Op OP_ENDIF, Op OP_ENDIF]"]]
  by simp

text \<open>Without the invariant the throwing branch is reached.\<close>

lemma pop_back_throws_below_zero:
  "step ((new_ScriptAnalyzer LEGACY ALL_RULES [Op OP_ENDIF])
           \<lparr>cs := \<lparr>m_stack_size = - 1, m_first_false_pos = NO_FALSE\<rparr>\<rparr>)
     = Threw Throw_pop_back"
  by (simp add: step_def exec_opcode_def Let_def new_ScriptAnalyzer_def all_true_def
      empty_cs_def pop_back_def)

section \<open>Properties of the canonical order\<close>

lemma exprCompareFn_rank_le: "exprCompareFn a b \<le> 0 \<Longrightarrow> expr_rank a \<le> expr_rank b"
  by (cases a; cases b) (simp_all add: exprPriority_def)

lemma exprCompareFn_rank_ge: "0 < exprCompareFn a b \<Longrightarrow> expr_rank b \<le> expr_rank a"
  by (cases a; cases b) (simp_all add: exprPriority_def)

lemma sorted_rank_sort_insert:
  "sorted (map expr_rank ys) \<Longrightarrow> sorted (map expr_rank (sort_insert exprCompareFn x ys))"
proof (induction ys)
  case Nil
  then show ?case by simp
next
  case (Cons y ys)
  show ?case
  proof (cases "exprCompareFn x y \<le> 0")
    case True
    then have "expr_rank x \<le> expr_rank y" by (rule exprCompareFn_rank_le)
    with Cons.prems True show ?thesis by auto
  next
    case False
    then have "expr_rank y \<le> expr_rank x" by (intro exprCompareFn_rank_ge) simp
    with Cons False show ?thesis by auto
  qed
qed

lemma sorted_rank_array_sort: "sorted (map expr_rank (array_sort exprCompareFn xs))"
proof (induction xs)
  case Nil
  then show ?case by (simp add: array_sort_def)
next
  case (Cons x xs)
  then have "sorted (map expr_rank (sort_insert exprCompareFn x (array_sort exprCompareFn xs)))"
    by (rule sorted_rank_sort_insert)
  then show ?case by (simp add: array_sort_def)
qed

text \<open>
  The same holds of every list an implementation of \<open>sort\<close> may return: a list
  in which no element compares greater than a later one.
\<close>

lemma sorted_wrt_exprCompareFn_rank:
  "sorted_wrt (\<lambda>a b. exprCompareFn a b \<le> 0) ys \<Longrightarrow> sorted (map expr_rank ys)"
  by (induction ys) (auto dest: exprCompareFn_rank_le)

lemma expr_rank_normalized:
  "expr_rank (case expr of
                App f as e \<Rightarrow> if f \<notin> set keeps_args_order then App f (g as) e else expr
              | Var v \<Rightarrow> expr
              | Bytes b \<Rightarrow> expr) = expr_rank expr"
  by (cases expr) simp_all

text \<open>
  Claim C3, amended. After \<open>normalizeExprs\<close> has sorted a conjunct list, every \<open>Var\<close>
  expression precedes every \<open>App\<close> expression and every \<open>App\<close> expression precedes
  every \<open>Bytes\<close> expression: the ranks of the variants never decrease along the list.
\<close>

theorem normalizeExprs_orders_variants:
  "sorted (map expr_rank (normalizeExprs exprs))"
proof -
  have "map expr_rank (normalizeExprs exprs) = map expr_rank (array_sort exprCompareFn exprs)"
    by (subst normalizeExprs.simps) (simp add: expr_rank_normalized)
  then show ?thesis by (simp add: sorted_rank_array_sort)
qed

text \<open>
  Claim C3 as stated fails: in the sorted list the \<open>Var\<close> expression precedes the
  \<open>App\<close> expression.
\<close>

theorem Var_precedes_App_counterexample:
  "normalizeExprs mixed_conjuncts = [Var 2, App OP_CHECKSIG [Var 1, Var 0] None, Bytes [1]]"
  by (subst normalizeExprs.simps)
     (simp add: mixed_conjuncts_def array_sort_def exprPriority_def keeps_args_order_def)

theorem normalizeExprs_orders_variants_witness:
  "map expr_rank (normalizeExprs mixed_conjuncts) = [0, 1, 2]
   \<and> sorted (map expr_rank (normalizeExprs mixed_conjuncts))"
proof -
  have "normalizeExprs mixed_conjuncts = [Var 2, App OP_CHECKSIG [Var 1, Var 0] None, Bytes [1]]"
    by (subst normalizeExprs.simps)
       (simp add: mixed_conjuncts_def array_sort_def exprPriority_def keeps_args_order_def)
  then show ?thesis using normalizeExprs_orders_variants[of mixed_conjuncts] by simp
qed

end
